theory Spec2Isabelle
  imports Main "HOL-Library.Word" "HOL-Library.Sublist" "HOL-Library.Monad_Syntax"
begin

section \<open>The streaming scanner (json.h and json\_fast.h)\<close>

text \<open>
  Both parser headers keep three file-level variables, \<open>braces\<close>, \<open>brackets\<close> (of type
  \<open>uint_fast32_t\<close>, an unsigned 64-bit integer under glibc on x86-64, so a decrement at
  zero wraps around) and \<open>instring\<close>.  The \<open>FILE*\<close> is modelled by the characters
  that are still unread.  At the end of the file \<open>fgetc_unlocked\<close> returns \<open>EOF\<close>,
  which the assignment to a \<open>char\<close> turns into the byte \<open>0xFF\<close>; the stream does
  not move any more.
\<close>

type_synonym uintf = "64 word"

record scanner =
  input :: string
  braces :: uintf
  brackets :: uintf
  instring :: bool

definition dquote :: char where
  "dquote = CHR 0x22"

definition backslash :: char where
  "backslash = CHR 0x5C"

definition newline :: char where
  "newline = CHR 0x0A"

definition eof_char :: char where
  "eof_char = CHR 0xFF"

definition lbrace :: char where
  "lbrace = CHR 0x7B"

definition rbrace :: char where
  "rbrace = CHR 0x7D"

definition lbracket :: char where
  "lbracket = CHR 0x5B"

definition rbracket :: char where
  "rbracket = CHR 0x5D"

text \<open>\<open>readc\<close>: the bookkeeping done for one character.\<close>

definition track :: "char \<Rightarrow> scanner \<Rightarrow> scanner" where
  "track c s =
     (if c = dquote then s\<lparr>instring := \<not> instring s\<rparr>
      else if instring s then s
      else if c = lbrace then s\<lparr>braces := braces s + 1\<rparr>
      else if c = rbrace then s\<lparr>braces := braces s - 1\<rparr>
      else if c = lbracket then s\<lparr>brackets := brackets s + 1\<rparr>
      else if c = rbracket then s\<lparr>brackets := brackets s - 1\<rparr>
      else s)"

definition readc :: "scanner \<Rightarrow> char \<times> scanner" where
  "readc s =
     (case input s of
        [] \<Rightarrow> (eof_char, track eof_char s)
      | c # cs \<Rightarrow> (c, track c (s\<lparr>input := cs\<rparr>)))"

lemma input_track [simp]: "input (track c s) = input s"
  by (simp add: track_def)

lemma readc_shorter [simp]:
  "input s \<noteq> [] \<Longrightarrow> length (input (snd (readc s))) < length (input s)"
  by (cases "input s") (simp_all add: readc_def)

lemma readc_eof [simp]: "input s = [] \<Longrightarrow> readc s = (eof_char, s)"
  by (simp add: readc_def track_def eof_char_def dquote_def lbrace_def rbrace_def
      lbracket_def rbracket_def)

subsection \<open>extract\_string\<close>

text \<open>
  \<open>while (!instring) readc(file);\<close>  At the end of the file the state no longer
  changes, so a loop whose condition still holds there never returns: \<open>None\<close>.
\<close>

function skip_to_string :: "scanner \<Rightarrow> scanner option" where
  "skip_to_string s =
     (if instring s then Some s
      else if input s = [] then None
      else skip_to_string (snd (readc s)))"
  by pat_completeness auto
termination
  by (relation "measure (\<lambda>s. length (input s))") auto

declare skip_to_string.simps [simp del]

text \<open>
  \<open>for (char c = readc(file); instring; c = readc(file)) out.push_back(c);\<close>
  At the end of the file inside a string the loop appends \<open>0xFF\<close> for ever.
\<close>

function copy_string :: "string \<Rightarrow> scanner \<Rightarrow> (string \<times> scanner) option" where
  "copy_string out s =
     (if instring (snd (readc s)) then
        (if input s = [] then None
         else copy_string (out @ [fst (readc s)]) (snd (readc s)))
      else Some (out, snd (readc s)))"
  by pat_completeness auto
termination
  by (relation "measure (\<lambda>(out, s). length (input s))") auto

declare copy_string.simps [simp del]

definition extract_string :: "scanner \<Rightarrow> (string \<times> scanner) option" where
  "extract_string s =
     (case skip_to_string s of
        None \<Rightarrow> None
      | Some s1 \<Rightarrow>
          (case copy_string [] s1 of
             None \<Rightarrow> None
           | Some (out, s2) \<Rightarrow> Some (out @ [newline], s2)))"

subsection \<open>The starting-points file\<close>

text \<open>
  \<open>while (std::getline(fin, in)) { in.push_back('\n'); ... }\<close>: \<open>getline\<close> takes
  the characters up to the next line feed (which it drops) or up to the end of the file,
  and fails when the file ends before any character was taken.
\<close>

fun getlines :: "string \<Rightarrow> string \<Rightarrow> string list" where
  "getlines cur [] = (if cur = [] then [] else [cur])"
| "getlines cur (c # cs) =
     (if c = newline then cur # getlines [] cs else getlines (cur @ [c]) cs)"

definition start_key :: "string \<Rightarrow> string" where
  "start_key line = line @ [newline]"


section \<open>The order-dependent cursor (json\_fast.h)\<close>

text \<open>
  A key is a C string literal; \<open>key[match]\<close> is non-zero exactly while
  \<open>match\<close> is below its length.  Every key the program passes is made of ASCII
  characters, so the byte read at the end of the file matches none of them and the
  loops below do not return once the file is exhausted.
\<close>

function read_to_key_loop ::
  "string \<Rightarrow> uintf \<Rightarrow> nat \<Rightarrow> scanner \<Rightarrow> (bool \<times> scanner) option" where
  "read_to_key_loop key level match s =
     (if match < length key \<and> level \<le> braces s then
        (if input s = [] then None
         else read_to_key_loop key level
                (if fst (readc s) = key ! match then match + 1 else 0) (snd (readc s)))
      else Some (\<not> match < length key, s))"
  by pat_completeness auto
termination
  by (relation "measure (\<lambda>(key, level, match, s). length (input s))") auto

declare read_to_key_loop.simps [simp del]

definition read_to_key :: "string \<Rightarrow> scanner \<Rightarrow> (bool \<times> scanner) option" where
  "read_to_key key s = read_to_key_loop key (braces s) 0 s"

function begin_field_loop :: "uintf \<Rightarrow> uintf \<Rightarrow> scanner \<Rightarrow> (bool \<times> scanner) option" where
  "begin_field_loop level stop s =
     (if level = braces s \<and> stop \<le> brackets s then
        (if input s = [] then None else begin_field_loop level stop (snd (readc s)))
      else Some (stop \<le> brackets s, s))"
  by pat_completeness auto
termination
  by (relation "measure (\<lambda>(level, stop, s). length (input s))") auto

declare begin_field_loop.simps [simp del]

definition begin_field :: "scanner \<Rightarrow> (bool \<times> scanner) option" where
  "begin_field s = begin_field_loop (braces s) (brackets s) s"

function end_field_loop :: "uintf \<Rightarrow> scanner \<Rightarrow> scanner option" where
  "end_field_loop level s =
     (if level \<le> braces s then
        (if input s = [] then None else end_field_loop level (snd (readc s)))
      else Some s)"
  by pat_completeness auto
termination
  by (relation "measure (\<lambda>(level, s). length (input s))") auto

declare end_field_loop.simps [simp del]

definition end_field :: "scanner \<Rightarrow> scanner option" where
  "end_field s = end_field_loop (braces s) s"

function begin_list_loop :: "uintf \<Rightarrow> uintf \<Rightarrow> scanner \<Rightarrow> (bool \<times> scanner) option" where
  "begin_list_loop level stop s =
     (if level = brackets s \<and> stop \<le> braces s then
        (if input s = [] then None else begin_list_loop level stop (snd (readc s)))
      else Some (stop \<le> braces s, s))"
  by pat_completeness auto
termination
  by (relation "measure (\<lambda>(level, stop, s). length (input s))") auto

declare begin_list_loop.simps [simp del]

definition begin_list :: "scanner \<Rightarrow> (bool \<times> scanner) option" where
  "begin_list s = begin_list_loop (brackets s) (braces s) s"

function end_list_loop :: "uintf \<Rightarrow> scanner \<Rightarrow> scanner option" where
  "end_list_loop level s =
     (if level \<le> brackets s then
        (if input s = [] then None else end_list_loop level (snd (readc s)))
      else Some s)"
  by pat_completeness auto
termination
  by (relation "measure (\<lambda>(level, s). length (input s))") auto

declare end_list_loop.simps [simp del]

definition end_list :: "scanner \<Rightarrow> scanner option" where
  "end_list s = end_list_loop (brackets s) s"


section \<open>The graph constructor (read\_graph.h)\<close>

text \<open>
  The tables of the program: the globals \<open>name\<close>, \<open>graph\<close>, \<open>edgename\<close>,
  \<open>badedge\<close>, \<open>nodes\<close>, the file-level statics \<open>edgenodes\<close>, \<open>idx\<close>,
  \<open>edgeidx\<close>, \<open>edgevtx\<close>, and the locals \<open>edges\<close> and \<open>controllers\<close> of
  \<open>read_graph\<close>.  Indices are \<open>uint_fast32_t\<close>; each is bounded by the number of
  elements held in memory, so they are natural numbers here.
\<close>

record gstate =
  name :: "string list"
  graph :: "(nat \<times> nat) list list"
  edgename :: "string list"
  badedge :: "bool list"
  nodes :: nat
  edgenodes :: "(nat \<times> nat) list list"
  idx :: "string \<rightharpoonup> nat"
  edgeidx :: "string \<rightharpoonup> nat"
  edgevtx :: "nat \<rightharpoonup> nat list"
  edges :: nat
  controllers :: nat

definition HEAD :: nat where
  "HEAD = 0"

definition TAIL :: nat where
  "TAIL = 1"

text \<open>
  \<open>table[a].emplace_back(x)\<close>.  Indexing a vector outside its size is undefined in
  C++; the invariant \<open>tables_ok\<close> below shows that the constructor never does it.
\<close>

definition emplace_at :: "nat \<Rightarrow> 'a \<Rightarrow> 'a list list \<Rightarrow> 'a list list" where
  "emplace_at a x t = t[a := t ! a @ [x]]"

text \<open>Lines 64 to 72: the two sentinels, no edge, no controller.\<close>

definition init_graph :: gstate where
  "init_graph =
     \<lparr>name = [[], []], graph = [[], []], edgename = [], badedge = [], nodes = 2,
      edgenodes = [], idx = Map.empty, edgeidx = Map.empty, edgevtx = Map.empty,
      edges = 0, controllers = 0\<rparr>"

text \<open>
  Lines 204 to 213 (and 101 to 112): the index of a vertex identifier, allocated at its
  first sighting.
\<close>

definition vertex_of :: "string \<Rightarrow> gstate \<Rightarrow> nat \<times> gstate" where
  "vertex_of s g =
     (case idx g s of
        None \<Rightarrow>
          (nodes g,
           g\<lparr>name := name g @ [s], graph := graph g @ [[]],
             idx := (idx g)(s \<mapsto> nodes g), nodes := nodes g + 1\<rparr>)
      | Some v \<Rightarrow> (v, g))"

text \<open>Lines 214 to 219 (and 113 to 119).\<close>

definition edge_of :: "string \<Rightarrow> gstate \<Rightarrow> nat \<times> gstate" where
  "edge_of s g =
     (case edgeidx g s of
        None \<Rightarrow>
          (edges g,
           g\<lparr>edgenodes := edgenodes g @ [[]], edgename := edgename g @ [s],
             badedge := badedge g @ [False],
             edgeidx := (edgeidx g)(s \<mapsto> edges g), edges := edges g + 1\<rparr>)
      | Some e \<Rightarrow> (e, g))"

text \<open>Lines 204 to 224 (and 101 to 126): one row, given its three identifiers.\<close>

definition add_row :: "string \<Rightarrow> string \<Rightarrow> string \<Rightarrow> gstate \<Rightarrow> gstate" where
  "add_row edge source target g =
     (let (sourcev, g1) = vertex_of source g;
          (targetv, g2) = vertex_of target g1;
          (edgev, g3) = edge_of edge g2;
          g4 = g3\<lparr>edgenodes := emplace_at edgev (sourcev, targetv) (edgenodes g3)\<rparr>;
          g5 = g4\<lparr>graph := emplace_at sourcev (targetv, edgev) (graph g4)\<rparr>
      in g5\<lparr>graph := emplace_at targetv (sourcev, edgev) (graph g5)\<rparr>)"

text \<open>Lines 227 and 228 (and 130, 131): the dummy edge.\<close>

definition add_dummy :: "gstate \<Rightarrow> gstate" where
  "add_dummy g = g\<lparr>edgename := edgename g @ [[]], badedge := badedge g @ [False]\<rparr>"

text \<open>
  Reduction 2: \<open>graph[s].emplace_back(v, edges); graph[v].emplace_back(s, edges);\<close>
  where \<open>s\<close> is \<open>HEAD\<close> or \<open>TAIL\<close>.
\<close>

definition wire :: "nat \<Rightarrow> nat \<Rightarrow> gstate \<Rightarrow> gstate" where
  "wire s v g =
     g\<lparr>graph := emplace_at v (s, edges g) (emplace_at s (v, edges g) (graph g))\<rparr>"

text \<open>
  Reduction 1 for one segment \<open>p\<close> of the edge \<open>e\<close> (lines 247 to 257, 156 to 168 and
  291 to 302): a new vertex named after the edge, recorded in \<open>edgevtx[e]\<close>, wired to the
  sentinel and to the two endpoints of the segment.
\<close>

definition explode_segment :: "nat \<Rightarrow> string \<Rightarrow> nat \<Rightarrow> nat \<times> nat \<Rightarrow> gstate \<Rightarrow> gstate" where
  "explode_segment s ident e p g =
     (let source = nodes g;
          g1 = g\<lparr>name := name g @ [ident], graph := graph g @ [[]], nodes := nodes g + 1,
                 edgevtx := (edgevtx g)(e \<mapsto> (case edgevtx g e of None \<Rightarrow> [] | Some vs \<Rightarrow> vs) @ [source])\<rparr>;
          g2 = g1\<lparr>graph := emplace_at s (source, edges g1) (graph g1)\<rparr>;
          g3 = g2\<lparr>graph := emplace_at source (s, edges g2) (graph g2)\<rparr>;
          g4 = g3\<lparr>graph := emplace_at source (fst p, edges g3) (graph g3)\<rparr>;
          g5 = g4\<lparr>graph := emplace_at (fst p) (source, edges g4) (graph g4)\<rparr>;
          g6 = g5\<lparr>graph := emplace_at source (snd p, edges g5) (graph g5)\<rparr>
      in g6\<lparr>graph := emplace_at (snd p) (source, edges g6) (graph g6)\<rparr>)"

text \<open>
  Lines 238 to 265 with \<open>s = TAIL\<close> and lines 278 to 311 with \<open>s = HEAD\<close> (the same text
  twice): the identifier is looked up as a vertex and, independently, as an edge.
  \<open>edgevtx.emplace(e, {})\<close> keeps an entry that is already there;
  \<open>edgevtx[e]\<close> creates an empty entry when there is none.
\<close>

definition designate :: "nat \<Rightarrow> string \<Rightarrow> gstate \<Rightarrow> gstate" where
  "designate s ident g =
     (let g1 = (case idx g ident of None \<Rightarrow> g | Some v \<Rightarrow> wire s v g)
      in case edgeidx g1 ident of
           None \<Rightarrow> g1
         | Some e \<Rightarrow>
             if \<not> badedge g1 ! e then
               (let g2 = g1\<lparr>badedge := (badedge g1)[e := True],
                             edgevtx := (case edgevtx g1 e of
                                           None \<Rightarrow> (edgevtx g1)(e \<mapsto> [])
                                         | Some vs \<Rightarrow> edgevtx g1)\<rparr>
                in fold (explode_segment s ident e) (edgenodes g2 ! e) g2)
             else
               (case edgevtx g1 e of
                  None \<Rightarrow> g1\<lparr>edgevtx := (edgevtx g1)(e \<mapsto> [])\<rparr>
                | Some vs \<Rightarrow> fold (wire s) vs g1))"

definition add_controller :: "string \<Rightarrow> gstate \<Rightarrow> gstate" where
  "add_controller ctrl g = designate TAIL ctrl (g\<lparr>controllers := controllers g + 1\<rparr>)"

definition add_start :: "string \<Rightarrow> gstate \<Rightarrow> gstate" where
  "add_start line g = designate HEAD (start_key line) g"

subsection \<open>The order-dependent reader (the default build)\<close>

definition quoted :: "string \<Rightarrow> string" where
  "quoted k = dquote # k @ [dquote]"

text \<open>The body of the loop over the rows, lines 197 to 224.\<close>

definition row_body :: "scanner \<Rightarrow> gstate \<Rightarrow> (scanner \<times> gstate) option" where
  "row_body s g =
     do {
       (_, s1) \<leftarrow> read_to_key (quoted ''viaGlobalId'') s;
       (edge, s2) \<leftarrow> extract_string s1;
       (_, s3) \<leftarrow> read_to_key (quoted ''fromGlobalId'') s2;
       (source, s4) \<leftarrow> extract_string s3;
       (_, s5) \<leftarrow> read_to_key (quoted ''toGlobalId'') s4;
       (target, s6) \<leftarrow> extract_string s5;
       Some (s6, add_row edge source target g)
     }"

text \<open>The body of the loop over the controllers, lines 233 to 265.\<close>

definition controller_body :: "scanner \<Rightarrow> gstate \<Rightarrow> (scanner \<times> gstate) option" where
  "controller_body s g =
     do {
       (_, s1) \<leftarrow> read_to_key (quoted ''globalId'') s;
       (ctrl, s2) \<leftarrow> extract_string s1;
       Some (s2, add_controller ctrl g)
     }"


text \<open>No primitive moves the stream backwards, and \<open>begin_field\<close> reads at least once.\<close>

lemma skip_to_string_input:
  "skip_to_string s = Some s' \<Longrightarrow> length (input s') \<le> length (input s)"
proof (induction s rule: skip_to_string.induct)
  case (1 s)
  show ?case
  proof (cases "instring s \<or> input s = []")
    case True
    show ?thesis
      using "1.prems" True by (subst (asm) skip_to_string.simps) (auto split: if_splits)
  next
    case False
    with "1.prems" have "skip_to_string (snd (readc s)) = Some s'"
      by (simp add: skip_to_string.simps [of s])
    with False "1.IH" have "length (input s') \<le> length (input (snd (readc s)))" by simp
    moreover from False have "length (input (snd (readc s))) < length (input s)" by simp
    ultimately show ?thesis by simp
  qed
qed

lemma copy_string_input:
  "copy_string out s = Some (r, s') \<Longrightarrow> length (input s') \<le> length (input s)"
proof (induction out s rule: copy_string.induct)
  case (1 out s)
  show ?case
  proof (cases "instring (snd (readc s))")
    case False
    with "1.prems" have "s' = snd (readc s)" by (simp add: copy_string.simps [of out s])
    then show ?thesis by (cases "input s") (simp_all add: readc_def)
  next
    case True
    have ne: "input s \<noteq> []"
      using "1.prems" True by (subst (asm) copy_string.simps) (auto split: if_splits)
    with True "1.prems" have "copy_string (out @ [fst (readc s)]) (snd (readc s)) = Some (r, s')"
      by (subst (asm) copy_string.simps) simp
    with True ne "1.IH" have "length (input s') \<le> length (input (snd (readc s)))" by simp
    moreover from ne have "length (input (snd (readc s))) < length (input s)" by simp
    ultimately show ?thesis by simp
  qed
qed

lemma extract_string_input:
  "extract_string s = Some (r, s') \<Longrightarrow> length (input s') \<le> length (input s)"
proof -
  assume "extract_string s = Some (r, s')"
  then obtain s1 out where "skip_to_string s = Some s1" "copy_string [] s1 = Some (out, s')"
    unfolding extract_string_def by (auto split: option.splits)
  then have "length (input s1) \<le> length (input s)" "length (input s') \<le> length (input s1)"
    by (blast dest: skip_to_string_input copy_string_input)+
  then show ?thesis by simp
qed

lemma read_to_key_loop_input:
  "read_to_key_loop key level match s = Some (b, s') \<Longrightarrow> length (input s') \<le> length (input s)"
proof (induction key level match s rule: read_to_key_loop.induct)
  case (1 key level match s)
  show ?case
  proof (cases "match < length key \<and> level \<le> braces s")
    case False
    show ?thesis
      using "1.prems" False by (subst (asm) read_to_key_loop.simps) (auto split: if_splits)
  next
    case True
    have ne: "input s \<noteq> []"
      using "1.prems" True by (subst (asm) read_to_key_loop.simps) (auto split: if_splits)
    with True "1.prems" have
      "read_to_key_loop key level (if fst (readc s) = key ! match then match + 1 else 0)
         (snd (readc s)) = Some (b, s')"
      by (subst (asm) read_to_key_loop.simps) simp
    with True ne "1.IH" have "length (input s') \<le> length (input (snd (readc s)))" by simp
    moreover from ne have "length (input (snd (readc s))) < length (input s)" by simp
    ultimately show ?thesis by simp
  qed
qed

lemma read_to_key_input:
  "read_to_key key s = Some (b, s') \<Longrightarrow> length (input s') \<le> length (input s)"
  unfolding read_to_key_def by (rule read_to_key_loop_input)

lemma begin_field_loop_input:
  "begin_field_loop level stop s = Some (b, s') \<Longrightarrow> length (input s') \<le> length (input s)"
proof (induction level stop s rule: begin_field_loop.induct)
  case (1 level stop s)
  show ?case
  proof (cases "level = braces s \<and> stop \<le> brackets s")
    case False
    show ?thesis
      using "1.prems" False by (subst (asm) begin_field_loop.simps) (auto split: if_splits)
  next
    case True
    have ne: "input s \<noteq> []"
      using "1.prems" True by (subst (asm) begin_field_loop.simps) (auto split: if_splits)
    with True "1.prems" have "begin_field_loop level stop (snd (readc s)) = Some (b, s')"
      by (subst (asm) begin_field_loop.simps) simp
    with True ne "1.IH" have "length (input s') \<le> length (input (snd (readc s)))" by simp
    moreover from ne have "length (input (snd (readc s))) < length (input s)" by simp
    ultimately show ?thesis by simp
  qed
qed

lemma begin_field_input:
  assumes "begin_field s = Some (b, s')"
  shows "length (input s') < length (input s)"
proof -
  from assms have ne: "input s \<noteq> []"
    by (auto simp: begin_field_def begin_field_loop.simps [of _ _ s] split: if_splits)
  with assms have "begin_field_loop (braces s) (brackets s) (snd (readc s)) = Some (b, s')"
    by (simp add: begin_field_def begin_field_loop.simps [of _ _ s])
  then have "length (input s') \<le> length (input (snd (readc s)))"
    by (rule begin_field_loop_input)
  moreover from ne have "length (input (snd (readc s))) < length (input s)" by simp
  ultimately show ?thesis by simp
qed

lemma end_field_loop_input:
  "end_field_loop level s = Some s' \<Longrightarrow> length (input s') \<le> length (input s)"
proof (induction level s rule: end_field_loop.induct)
  case (1 level s)
  show ?case
  proof (cases "level \<le> braces s")
    case False
    show ?thesis
      using "1.prems" False by (subst (asm) end_field_loop.simps) (auto split: if_splits)
  next
    case True
    have ne: "input s \<noteq> []"
      using "1.prems" True by (subst (asm) end_field_loop.simps) (auto split: if_splits)
    with True "1.prems" have "end_field_loop level (snd (readc s)) = Some s'"
      by (subst (asm) end_field_loop.simps) simp
    with True ne "1.IH" have "length (input s') \<le> length (input (snd (readc s)))" by simp
    moreover from ne have "length (input (snd (readc s))) < length (input s)" by simp
    ultimately show ?thesis by simp
  qed
qed

lemma end_field_input:
  "end_field s = Some s' \<Longrightarrow> length (input s') \<le> length (input s)"
  unfolding end_field_def by (rule end_field_loop_input)

lemma row_body_input:
  assumes "row_body s g = Some (s', g')"
  shows "length (input s') \<le> length (input s)"
proof -
  from assms obtain b1 s1 edge s2 b3 s3 source s4 b5 s5 target where
    "read_to_key (quoted ''viaGlobalId'') s = Some (b1, s1)"
    "extract_string s1 = Some (edge, s2)"
    "read_to_key (quoted ''fromGlobalId'') s2 = Some (b3, s3)"
    "extract_string s3 = Some (source, s4)"
    "read_to_key (quoted ''toGlobalId'') s4 = Some (b5, s5)"
    "extract_string s5 = Some (target, s')"
    by (auto simp: row_body_def bind_eq_Some_conv)
  then have "length (input s1) \<le> length (input s)" "length (input s2) \<le> length (input s1)"
    "length (input s3) \<le> length (input s2)" "length (input s4) \<le> length (input s3)"
    "length (input s5) \<le> length (input s4)" "length (input s') \<le> length (input s5)"
    by (blast dest: read_to_key_input extract_string_input)+
  then show ?thesis by linarith
qed

lemma controller_body_input:
  assumes "controller_body s g = Some (s', g')"
  shows "length (input s') \<le> length (input s)"
proof -
  from assms obtain b1 s1 ctrl where
    "read_to_key (quoted ''globalId'') s = Some (b1, s1)"
    "extract_string s1 = Some (ctrl, s')"
    by (auto simp: controller_body_def bind_eq_Some_conv)
  then have "length (input s1) \<le> length (input s)" "length (input s') \<le> length (input s1)"
    by (blast dest: read_to_key_input extract_string_input)+
  then show ?thesis by linarith
qed

text \<open>
  \<open>for (begin_list(file); begin_field(file); end_field(file)) { ... }\<close>, after the
  initial \<open>begin_list\<close>: lines 192 to 225 and 232 to 266.
\<close>

function rows_loop :: "scanner \<Rightarrow> gstate \<Rightarrow> (scanner \<times> gstate) option" where
  "rows_loop s g =
     (case begin_field s of
        None \<Rightarrow> None
      | Some (b, s1) \<Rightarrow>
          if \<not> b then Some (s1, g)
          else (case row_body s1 g of
                  None \<Rightarrow> None
                | Some (s2, g2) \<Rightarrow>
                    (case end_field s2 of
                       None \<Rightarrow> None
                     | Some s3 \<Rightarrow> rows_loop s3 g2)))"
  by pat_completeness auto
termination
proof (relation "measure (\<lambda>(s, g). length (input s))", goal_cases)
  case 1
  show ?case by simp
next
  case (2 s g x2 b s1 x2a s2 g2 s3)
  then have "length (input s1) < length (input s)" "length (input s2) \<le> length (input s1)"
    "length (input s3) \<le> length (input s2)"
    by (metis begin_field_input, metis row_body_input, metis end_field_input)
  then show ?case by simp
qed

function controllers_loop :: "scanner \<Rightarrow> gstate \<Rightarrow> (scanner \<times> gstate) option" where
  "controllers_loop s g =
     (case begin_field s of
        None \<Rightarrow> None
      | Some (b, s1) \<Rightarrow>
          if \<not> b then Some (s1, g)
          else (case controller_body s1 g of
                  None \<Rightarrow> None
                | Some (s2, g2) \<Rightarrow>
                    (case end_field s2 of
                       None \<Rightarrow> None
                     | Some s3 \<Rightarrow> controllers_loop s3 g2)))"
  by pat_completeness auto
termination
proof (relation "measure (\<lambda>(s, g). length (input s))", goal_cases)
  case 1
  show ?case by simp
next
  case (2 s g x2 b s1 x2a s2 g2 s3)
  then have "length (input s1) < length (input s)" "length (input s2) \<le> length (input s1)"
    "length (input s3) \<le> length (input s2)"
    by (metis begin_field_input, metis controller_body_input, metis end_field_input)
  then show ?case by simp
qed

declare rows_loop.simps [simp del] controllers_loop.simps [simp del]

text \<open>The scanner before the first character: the statics are zero-initialised.\<close>

definition open_file :: "string \<Rightarrow> scanner" where
  "open_file text = \<lparr>input = text, braces = 0, brackets = 0, instring = False\<rparr>"

text \<open>Lines 190 to 267: the JSON document, in the order-dependent build.\<close>

definition read_json :: "string \<Rightarrow> gstate option" where
  "read_json text =
     do {
       (_, s1) \<leftarrow> begin_field (open_file text);
       (_, s2) \<leftarrow> read_to_key (quoted ''rows'') s1;
       (_, s3) \<leftarrow> begin_list s2;
       (s4, g1) \<leftarrow> rows_loop s3 init_graph;
       (_, s5) \<leftarrow> read_to_key (quoted ''controllers'') s4;
       (_, s6) \<leftarrow> begin_list s5;
       (s7, g2) \<leftarrow> controllers_loop s6 (add_dummy g1);
       _ \<leftarrow> end_field s7;
       Some g2
     }"

text \<open>
  \<open>read_graph(filename, startingpoints)\<close> on the contents of the two files.  \<open>None\<close>:
  the JSON reader does not return (it runs past the end of the file).
\<close>

definition read_graph :: "string \<Rightarrow> string \<Rightarrow> gstate option" where
  "read_graph text startingpoints =
     do {
       g \<leftarrow> read_json text;
       Some (fold add_start (getlines [] startingpoints) g)
     }"


section \<open>The string extractor\<close>

lemma readc_Cons: "input s = c # cs \<Longrightarrow> readc s = (c, track c (s\<lparr>input := cs\<rparr>))"
  by (simp add: readc_def)

lemma instring_track: "instring (track c s) = (if c = dquote then \<not> instring s else instring s)"
  by (simp add: track_def)

lemma skip_to_string_finds:
  "\<not> instring s \<Longrightarrow> input s = pre @ dquote # xs \<Longrightarrow> dquote \<notin> set pre \<Longrightarrow>
   \<exists>s1. skip_to_string s = Some s1 \<and> input s1 = xs \<and> instring s1"
proof (induction pre arbitrary: s)
  case Nil
  then have r: "readc s = (dquote, track dquote (s\<lparr>input := xs\<rparr>))"
    by (simp add: readc_Cons)
  have "skip_to_string (track dquote (s\<lparr>input := xs\<rparr>)) = Some (track dquote (s\<lparr>input := xs\<rparr>))"
    using Nil by (subst skip_to_string.simps) (simp add: instring_track)
  with Nil r show ?case
    by (subst skip_to_string.simps) (simp add: instring_track)
next
  case (Cons c pre)
  let ?s = "track c (s\<lparr>input := pre @ dquote # xs\<rparr>)"
  from Cons.prems have r: "readc s = (c, ?s)" by (simp add: readc_Cons)
  from Cons.prems have "\<not> instring ?s" "input ?s = pre @ dquote # xs" "dquote \<notin> set pre"
    by (auto simp: instring_track)
  from Cons.IH [OF this] obtain s1 where
    "skip_to_string ?s = Some s1" "input s1 = xs" "instring s1" by blast
  with Cons.prems r show ?case
    by (subst skip_to_string.simps) simp
qed

lemma copy_string_copies:
  "instring s \<Longrightarrow> input s = body @ dquote # rest \<Longrightarrow> dquote \<notin> set body \<Longrightarrow>
   \<exists>s'. copy_string out s = Some (out @ body, s') \<and> input s' = rest \<and> \<not> instring s'"
proof (induction body arbitrary: s out)
  case Nil
  then have r: "readc s = (dquote, track dquote (s\<lparr>input := rest\<rparr>))"
    by (simp add: readc_Cons)
  with Nil show ?case
    by (subst copy_string.simps) (simp add: instring_track)
next
  case (Cons c body)
  let ?s = "track c (s\<lparr>input := body @ dquote # rest\<rparr>)"
  from Cons.prems have r: "readc s = (c, ?s)" by (simp add: readc_Cons)
  from Cons.prems have "instring ?s" "input ?s = body @ dquote # rest" "dquote \<notin> set body"
    by (auto simp: instring_track)
  from Cons.IH [OF this, of "out @ [c]"] obtain s' where
    "copy_string (out @ [c]) ?s = Some ((out @ [c]) @ body, s')" "input s' = rest" "\<not> instring s'"
    by blast
  with Cons.prems r \<open>instring ?s\<close> show ?case
    by (subst copy_string.simps) simp
qed


section \<open>Invariants of the constructed tables\<close>

lemma length_emplace_at [simp]: "length (emplace_at a x t) = length t"
  by (simp add: emplace_at_def)

lemma nth_emplace_at:
  "u < length t \<Longrightarrow> emplace_at a x t ! u = (if u = a then t ! u @ [x] else t ! u)"
  by (simp add: emplace_at_def)

definition tables_ok :: "nat \<Rightarrow> gstate \<Rightarrow> bool" where
  "tables_ok d g \<longleftrightarrow>
     length (name g) = nodes g \<and> length (graph g) = nodes g \<and> 2 \<le> nodes g \<and>
     length (edgename g) = edges g + d \<and> length (badedge g) = edges g + d \<and>
     length (edgenodes g) = edges g \<and>
     (\<forall>k v. idx g k = Some v \<longrightarrow> 2 \<le> v \<and> v < nodes g) \<and>
     (\<forall>k e. edgeidx g k = Some e \<longrightarrow> e < edges g) \<and>
     (\<forall>e < edges g. \<forall>p \<in> set (edgenodes g ! e). fst p < nodes g \<and> snd p < nodes g) \<and>
     (\<forall>e vs. edgevtx g e = Some vs \<longrightarrow> (\<forall>v \<in> set vs. v < nodes g)) \<and>
     (\<forall>v < nodes g. \<forall>p \<in> set (graph g ! v). fst p < nodes g \<and> snd p \<le> edges g) \<and>
     (\<forall>e. edgevtx g e \<noteq> None \<longleftrightarrow> e < edges g \<and> badedge g ! e) \<and>
     (\<forall>e. edges g \<le> e \<longrightarrow> e < length (badedge g) \<longrightarrow> \<not> badedge g ! e)"

definition adj_ok :: "nat \<Rightarrow> nat \<Rightarrow> (nat \<times> nat) list list \<Rightarrow> bool" where
  "adj_ok n m t \<longleftrightarrow> length t = n \<and> (\<forall>v < n. \<forall>p \<in> set (t ! v). fst p < n \<and> snd p \<le> m)"

lemma adj_ok_emplace:
  "adj_ok n m t \<Longrightarrow> a < n \<Longrightarrow> b < n \<Longrightarrow> e \<le> m \<Longrightarrow> adj_ok n m (emplace_at a (b, e) t)"
  by (auto simp: adj_ok_def nth_emplace_at)

lemma adj_ok_grow:
  "adj_ok n m t \<Longrightarrow> adj_ok (Suc n) m (t @ [[]])"
  by (auto simp: adj_ok_def nth_append less_Suc_eq)

lemma adj_ok_mono: "adj_ok n m t \<Longrightarrow> m \<le> m' \<Longrightarrow> adj_ok n m' t"
  by (fastforce simp: adj_ok_def)

lemma tables_ok_adj: "tables_ok d g \<Longrightarrow> adj_ok (nodes g) (edges g) (graph g)"
  by (simp add: tables_ok_def adj_ok_def)

lemma tables_ok_init: "tables_ok 0 init_graph"
  by (auto simp: tables_ok_def init_graph_def less_Suc_eq numeral_2_eq_2)

lemma vertex_of_ok:
  assumes "tables_ok d g" and "vertex_of s g = (v, g')"
  shows "tables_ok d g' \<and> v < nodes g' \<and> 2 \<le> v \<and> edges g' = edges g \<and> nodes g \<le> nodes g'"
proof (cases "idx g s")
  case None
  with assms(2) have g': "g' = g\<lparr>name := name g @ [s], graph := graph g @ [[]],
      idx := (idx g)(s \<mapsto> nodes g), nodes := nodes g + 1\<rparr>" and v: "v = nodes g"
    by (auto simp: vertex_of_def)
  from assms(1) have "adj_ok (nodes g + 1) (edges g) (graph g @ [[]])"
    using adj_ok_grow [OF tables_ok_adj] by simp
  with assms(1) show ?thesis
    unfolding g' v tables_ok_def adj_ok_def
    by (simp add: less_Suc_eq)
next
  case (Some w)
  with assms show ?thesis by (auto simp: vertex_of_def tables_ok_def)
qed


lemma edge_of_ok:
  assumes "tables_ok d g" and "edge_of s g = (e, g')"
  shows "e < edges g' \<and> nodes g' = nodes g \<and> edges g \<le> edges g' \<and> graph g' = graph g \<and>
     length (name g') = nodes g' \<and>
     length (edgename g') = edges g' + d \<and> length (badedge g') = edges g' + d \<and>
     length (edgenodes g') = edges g' \<and>
     (\<forall>k v. idx g' k = Some v \<longrightarrow> 2 \<le> v \<and> v < nodes g') \<and>
     (\<forall>k e. edgeidx g' k = Some e \<longrightarrow> e < edges g') \<and>
     (\<forall>e < edges g'. \<forall>p \<in> set (edgenodes g' ! e). fst p < nodes g' \<and> snd p < nodes g') \<and>
     (\<forall>e vs. edgevtx g' e = Some vs \<longrightarrow> (\<forall>v \<in> set vs. v < nodes g')) \<and>
     (\<forall>e. edgevtx g' e \<noteq> None \<longleftrightarrow> e < edges g' \<and> badedge g' ! e) \<and>
     (\<forall>e. edges g' \<le> e \<longrightarrow> e < length (badedge g') \<longrightarrow> \<not> badedge g' ! e)"
proof (cases "edgeidx g s")
  case None
  with assms(2) have g': "g' = g\<lparr>edgenodes := edgenodes g @ [[]], edgename := edgename g @ [s],
             badedge := badedge g @ [False],
             edgeidx := (edgeidx g)(s \<mapsto> edges g), edges := edges g + 1\<rparr>" and e: "e = edges g"
    by (auto simp: edge_of_def)
  from assms(1) show ?thesis
    unfolding g' e tables_ok_def
    by (auto simp: less_Suc_eq nth_append)
next
  case (Some w)
  with assms show ?thesis by (auto simp: edge_of_def tables_ok_def)
qed


lemma tables_okD:
  assumes "tables_ok d g"
  shows "length (name g) = nodes g" "length (graph g) = nodes g" "2 \<le> nodes g"
    "length (edgename g) = edges g + d" "length (badedge g) = edges g + d"
    "length (edgenodes g) = edges g"
    "\<And>k v. idx g k = Some v \<Longrightarrow> 2 \<le> v \<and> v < nodes g"
    "\<And>k e. edgeidx g k = Some e \<Longrightarrow> e < edges g"
    "\<And>e p. e < edges g \<Longrightarrow> p \<in> set (edgenodes g ! e) \<Longrightarrow> fst p < nodes g \<and> snd p < nodes g"
    "\<And>e vs v. edgevtx g e = Some vs \<Longrightarrow> v \<in> set vs \<Longrightarrow> v < nodes g"
    "\<And>e. edgevtx g e \<noteq> None \<longleftrightarrow> e < edges g \<and> badedge g ! e"
    "\<And>e. edges g \<le> e \<Longrightarrow> e < length (badedge g) \<Longrightarrow> \<not> badedge g ! e"
  using assms unfolding tables_ok_def by blast+

lemma tables_okI:
  assumes "length (name g) = nodes g" "2 \<le> nodes g"
    "length (edgename g) = edges g + d" "length (badedge g) = edges g + d"
    "length (edgenodes g) = edges g"
    "\<And>k v. idx g k = Some v \<Longrightarrow> 2 \<le> v \<and> v < nodes g"
    "\<And>k e. edgeidx g k = Some e \<Longrightarrow> e < edges g"
    "\<And>e p. e < edges g \<Longrightarrow> p \<in> set (edgenodes g ! e) \<Longrightarrow> fst p < nodes g \<and> snd p < nodes g"
    "\<And>e vs v. edgevtx g e = Some vs \<Longrightarrow> v \<in> set vs \<Longrightarrow> v < nodes g"
    "adj_ok (nodes g) (edges g) (graph g)"
    "\<And>e. edgevtx g e \<noteq> None \<longleftrightarrow> e < edges g \<and> badedge g ! e"
    "\<And>e. edges g \<le> e \<Longrightarrow> e < length (badedge g) \<Longrightarrow> \<not> badedge g ! e"
  shows "tables_ok d g"
  using assms unfolding tables_ok_def adj_ok_def by blast

lemma add_row_ok:
  assumes ok: "tables_ok d g"
  shows "tables_ok d (add_row edge source target g)"
proof -
  obtain sv g1 where 1: "vertex_of source g = (sv, g1)" by fastforce
  obtain tv g2 where 2: "vertex_of target g1 = (tv, g2)" by fastforce
  obtain ev g3 where 3: "edge_of edge g2 = (ev, g3)" by fastforce
  from vertex_of_ok [OF ok 1] have ok1: "tables_ok d g1" and sv: "sv < nodes g1" by auto
  from vertex_of_ok [OF ok1 2] have ok2: "tables_ok d g2" and tv: "tv < nodes g2"
    and n12: "nodes g1 \<le> nodes g2" by auto
  note e3 = edge_of_ok [OF ok2 3]
  from e3 have n3: "nodes g3 = nodes g2" and ev: "ev < edges g3" by auto
  from sv tv n12 n3 have sv3: "sv < nodes g3" and tv3: "tv < nodes g3" by auto
  have a3: "adj_ok (nodes g3) (edges g3) (graph g3)"
    using adj_ok_mono [OF tables_ok_adj [OF ok2], of "edges g3"] e3 by simp
  have r: "add_row edge source target g =
      g3\<lparr>edgenodes := emplace_at ev (sv, tv) (edgenodes g3),
         graph := emplace_at tv (sv, ev) (emplace_at sv (tv, ev) (graph g3))\<rparr>"
    by (simp add: add_row_def 1 2 3)
  show ?thesis
    unfolding r
  proof (rule tables_okI, goal_cases)
    case (8 e p)
    with e3 sv3 tv3 show ?case by (auto simp: nth_emplace_at split: if_splits)
  next
    case 10
    from a3 sv3 tv3 ev show ?case by (simp add: adj_ok_emplace)
  qed (use e3 ok2 in \<open>auto simp: tables_ok_def\<close>)
qed

lemma add_dummy_ok: "tables_ok d g \<Longrightarrow> tables_ok (Suc d) (add_dummy g)"
  by (auto simp: tables_ok_def add_dummy_def nth_append less_Suc_eq)

lemma wire_ok:
  assumes "tables_ok d g" "s < 2" "v < nodes g"
  shows "tables_ok d (wire s v g)"
proof -
  from assms have "s < nodes g" by (simp add: tables_ok_def)
  with assms have "adj_ok (nodes g) (edges g) (emplace_at v (s, edges g) (emplace_at s (v, edges g) (graph g)))"
    by (simp add: adj_ok_emplace tables_ok_adj)
  with assms(1) show ?thesis
    by (simp add: tables_ok_def wire_def adj_ok_def)
qed

lemma wire_fields [simp]:
  "name (wire s v g) = name g" "edgename (wire s v g) = edgename g"
  "badedge (wire s v g) = badedge g" "nodes (wire s v g) = nodes g"
  "edgenodes (wire s v g) = edgenodes g" "idx (wire s v g) = idx g"
  "edgeidx (wire s v g) = edgeidx g" "edgevtx (wire s v g) = edgevtx g"
  "edges (wire s v g) = edges g" "controllers (wire s v g) = controllers g"
  by (simp_all add: wire_def)

lemma fold_wire_fields [simp]:
  "name (fold (wire s) vs g) = name g" "edgename (fold (wire s) vs g) = edgename g"
  "badedge (fold (wire s) vs g) = badedge g" "nodes (fold (wire s) vs g) = nodes g"
  "edgenodes (fold (wire s) vs g) = edgenodes g" "idx (fold (wire s) vs g) = idx g"
  "edgeidx (fold (wire s) vs g) = edgeidx g" "edgevtx (fold (wire s) vs g) = edgevtx g"
  "edges (fold (wire s) vs g) = edges g" "controllers (fold (wire s) vs g) = controllers g"
  by (induction vs arbitrary: g; simp)+

lemma fold_wire_ok:
  "tables_ok d g \<Longrightarrow> s < 2 \<Longrightarrow> \<forall>v \<in> set vs. v < nodes g \<Longrightarrow> tables_ok d (fold (wire s) vs g)"
  by (induction vs arbitrary: g) (simp_all add: wire_ok)

lemma explode_segment_fields [simp]:
  "name (explode_segment s ident e p g) = name g @ [ident]"
  "edgename (explode_segment s ident e p g) = edgename g"
  "badedge (explode_segment s ident e p g) = badedge g"
  "nodes (explode_segment s ident e p g) = Suc (nodes g)"
  "edgenodes (explode_segment s ident e p g) = edgenodes g"
  "idx (explode_segment s ident e p g) = idx g"
  "edgeidx (explode_segment s ident e p g) = edgeidx g"
  "edgevtx (explode_segment s ident e p g) =
     (edgevtx g)(e \<mapsto> (case edgevtx g e of None \<Rightarrow> [] | Some vs \<Rightarrow> vs) @ [nodes g])"
  "edges (explode_segment s ident e p g) = edges g"
  "controllers (explode_segment s ident e p g) = controllers g"
  by (simp_all add: explode_segment_def Let_def)

lemma explode_segment_graph:
  "graph (explode_segment s ident e p g) =
     emplace_at (snd p) (nodes g, edges g) (emplace_at (nodes g) (snd p, edges g)
       (emplace_at (fst p) (nodes g, edges g) (emplace_at (nodes g) (fst p, edges g)
         (emplace_at (nodes g) (s, edges g) (emplace_at s (nodes g, edges g) (graph g @ [[]]))))))"
  by (simp add: explode_segment_def Let_def)

lemma explode_segment_ok:
  assumes ok: "tables_ok d g" and s: "s < 2" and p: "fst p < nodes g" "snd p < nodes g"
    and e: "e < edges g" "badedge g ! e"
  shows "tables_ok d (explode_segment s ident e p g)"
proof (rule tables_okI, goal_cases)
  case 10
  from ok s have sn: "s < nodes g" by (simp add: tables_ok_def)
  have "adj_ok (Suc (nodes g)) (edges g) (graph g @ [[]])"
    by (rule adj_ok_grow [OF tables_ok_adj [OF ok]])
  with sn p show ?case
    by (simp add: explode_segment_graph adj_ok_emplace)
next
  case (9 e' vs v)
  with ok show ?case
    by (auto simp: tables_ok_def less_Suc_eq split: if_splits option.splits)
qed (use ok e in \<open>auto simp: tables_ok_def less_Suc_eq\<close>)


lemma fold_explode:
  assumes "tables_ok d g" "s < 2" "\<forall>p \<in> set ps. fst p < nodes g \<and> snd p < nodes g"
    "e < edges g" "badedge g ! e" "edgevtx g e = Some vs0"
  shows "tables_ok d (fold (explode_segment s ident e) ps g) \<and>
    name (fold (explode_segment s ident e) ps g) = name g @ replicate (length ps) ident \<and>
    nodes (fold (explode_segment s ident e) ps g) = nodes g + length ps \<and>
    edgevtx (fold (explode_segment s ident e) ps g) =
      (edgevtx g)(e \<mapsto> vs0 @ [nodes g ..< nodes g + length ps]) \<and>
    badedge (fold (explode_segment s ident e) ps g) = badedge g \<and>
    edgename (fold (explode_segment s ident e) ps g) = edgename g \<and>
    edgenodes (fold (explode_segment s ident e) ps g) = edgenodes g \<and>
    idx (fold (explode_segment s ident e) ps g) = idx g \<and>
    edgeidx (fold (explode_segment s ident e) ps g) = edgeidx g \<and>
    edges (fold (explode_segment s ident e) ps g) = edges g \<and>
    controllers (fold (explode_segment s ident e) ps g) = controllers g"
  using assms
proof (induction ps arbitrary: g vs0)
  case Nil
  then show ?case by (simp add: fun_upd_idem)
next
  case (Cons p ps)
  let ?g = "explode_segment s ident e p g"
  from Cons.prems have ok: "tables_ok d ?g"
    by (intro explode_segment_ok) auto
  from Cons.prems have pre: "\<forall>p \<in> set ps. fst p < nodes ?g \<and> snd p < nodes ?g"
    "e < edges ?g" "badedge ?g ! e" "edgevtx ?g e = Some (vs0 @ [nodes g])"
    by (auto simp: less_Suc_eq)
  note IH = Cons.IH [OF ok Cons.prems(2) pre]
  have u: "(vs0 @ [nodes g]) @ [nodes ?g ..< nodes ?g + length ps]
      = vs0 @ [nodes g ..< nodes g + length (p # ps)]"
  proof -
    have a: "[nodes g ..< nodes g + length (p # ps)]
        = nodes g # [Suc (nodes g) ..< nodes g + length (p # ps)]"
      by (rule upt_conv_Cons) simp
    have b: "nodes ?g + length ps = nodes g + length (p # ps)" by simp
    have c: "nodes ?g = Suc (nodes g)" by simp
    show ?thesis unfolding b unfolding c a by (simp only: append_assoc append.simps)
  qed
  have F: "fold (explode_segment s ident e) (p # ps) g = fold (explode_segment s ident e) ps ?g"
    by simp
  from IH have "edgevtx (fold (explode_segment s ident e) ps ?g)
      = (edgevtx ?g)(e \<mapsto> (vs0 @ [nodes g]) @ [nodes ?g ..< nodes ?g + length ps])"
    by blast
  also have "\<dots> = (edgevtx g)(e \<mapsto> vs0 @ [nodes g ..< nodes g + length (p # ps)])"
    unfolding u by simp
  finally have E: "edgevtx (fold (explode_segment s ident e) ps ?g)
      = (edgevtx g)(e \<mapsto> vs0 @ [nodes g ..< nodes g + length (p # ps)])" .
  from IH have "name (fold (explode_segment s ident e) ps ?g) = name ?g @ replicate (length ps) ident"
    by blast
  then have N: "name (fold (explode_segment s ident e) ps ?g) = name g @ replicate (length (p # ps)) ident"
    by simp
  from IH have "nodes (fold (explode_segment s ident e) ps ?g) = nodes ?g + length ps"
    by blast
  then have M: "nodes (fold (explode_segment s ident e) ps ?g) = nodes g + length (p # ps)"
    by simp
  from IH have rest: "tables_ok d (fold (explode_segment s ident e) ps ?g)"
    "badedge (fold (explode_segment s ident e) ps ?g) = badedge ?g"
    "edgename (fold (explode_segment s ident e) ps ?g) = edgename ?g"
    "edgenodes (fold (explode_segment s ident e) ps ?g) = edgenodes ?g"
    "idx (fold (explode_segment s ident e) ps ?g) = idx ?g"
    "edgeidx (fold (explode_segment s ident e) ps ?g) = edgeidx ?g"
    "edges (fold (explode_segment s ident e) ps ?g) = edges ?g"
    "controllers (fold (explode_segment s ident e) ps ?g) = controllers ?g"
    by blast+
  show ?case
    unfolding F using E N M rest by (simp only: explode_segment_fields)
qed


lemma wired_ok:
  assumes "tables_ok d g" "s < 2"
  shows "tables_ok d (case idx g ident of None \<Rightarrow> g | Some v \<Rightarrow> wire s v g)"
proof (cases "idx g ident")
  case None
  with assms show ?thesis by simp
next
  case (Some v)
  with assms have "v < nodes g" by (auto simp: tables_ok_def)
  with assms Some show ?thesis by (simp add: wire_ok)
qed

lemma wired_fields:
  "name (case idx g ident of None \<Rightarrow> g | Some v \<Rightarrow> wire s v g) = name g"
  "edgename (case idx g ident of None \<Rightarrow> g | Some v \<Rightarrow> wire s v g) = edgename g"
  "badedge (case idx g ident of None \<Rightarrow> g | Some v \<Rightarrow> wire s v g) = badedge g"
  "nodes (case idx g ident of None \<Rightarrow> g | Some v \<Rightarrow> wire s v g) = nodes g"
  "edgenodes (case idx g ident of None \<Rightarrow> g | Some v \<Rightarrow> wire s v g) = edgenodes g"
  "idx (case idx g ident of None \<Rightarrow> g | Some v \<Rightarrow> wire s v g) = idx g"
  "edgeidx (case idx g ident of None \<Rightarrow> g | Some v \<Rightarrow> wire s v g) = edgeidx g"
  "edgevtx (case idx g ident of None \<Rightarrow> g | Some v \<Rightarrow> wire s v g) = edgevtx g"
  "edges (case idx g ident of None \<Rightarrow> g | Some v \<Rightarrow> wire s v g) = edges g"
  "controllers (case idx g ident of None \<Rightarrow> g | Some v \<Rightarrow> wire s v g) = controllers g"
  by (simp_all split: option.split)

lemma designate_no_edge:
  "edgeidx g ident = None \<Longrightarrow>
   designate s ident g = (case idx g ident of None \<Rightarrow> g | Some v \<Rightarrow> wire s v g)"
  by (simp add: designate_def Let_def wired_fields)

lemma designate_again:
  assumes ok: "tables_ok d g" and e: "edgeidx g ident = Some e" and bad: "badedge g ! e"
  shows "designate s ident g =
     fold (wire s) (the (edgevtx g e)) (case idx g ident of None \<Rightarrow> g | Some v \<Rightarrow> wire s v g)"
proof -
  from ok e have "e < edges g" by (rule tables_okD(8))
  with bad tables_okD(11) [OF ok, of e] obtain vs where "edgevtx g e = Some vs" by auto
  with e bad show ?thesis
    by (simp add: designate_def Let_def wired_fields)
qed

lemma designate_fresh:
  assumes ok: "tables_ok d g" and s: "s < 2" and e: "edgeidx g ident = Some e"
    and fresh: "\<not> badedge g ! e"
  defines "g' \<equiv> designate s ident g"
  shows "tables_ok d g'"
    and "name g' = name g @ replicate (length (edgenodes g ! e)) ident"
    and "nodes g' = nodes g + length (edgenodes g ! e)"
    and "edgevtx g' = (edgevtx g)(e \<mapsto> [nodes g ..< nodes g + length (edgenodes g ! e)])"
    and "badedge g' = (badedge g)[e := True]"
    and "edgename g' = edgename g" and "edgenodes g' = edgenodes g" and "idx g' = idx g"
    and "edgeidx g' = edgeidx g" and "edges g' = edges g" and "controllers g' = controllers g"
proof -
  let ?g1 = "case idx g ident of None \<Rightarrow> g | Some v \<Rightarrow> wire s v g"
  let ?g2 = "?g1\<lparr>badedge := (badedge g)[e := True], edgevtx := (edgevtx g)(e \<mapsto> [])\<rparr>"
  from ok e have el: "e < edges g" by (rule tables_okD(8))
  with fresh tables_okD(11) [OF ok, of e] have none: "edgevtx g e = None" by auto
  have d: "g' = fold (explode_segment s ident e) (edgenodes g ! e) ?g2"
    unfolding g'_def using e fresh none
    by (simp add: designate_def Let_def wired_fields)
  have ok1: "tables_ok d ?g1" by (rule wired_ok [OF ok s])
  have ok2: "tables_ok d ?g2"
  proof (rule tables_okI, goal_cases)
    case (11 e')
    from tables_okD(11) [OF ok, of e'] tables_okD(5) [OF ok] el show ?case
      by (cases "e' = e") (auto simp: wired_fields)
  next
    case (9 e' vs v)
    with tables_okD(10) [OF ok, of e' vs v] show ?case
      by (cases "e' = e") (auto simp: wired_fields)
  next
    case (12 e')
    with tables_okD(12) [OF ok, of e'] el show ?case by (auto simp: wired_fields)
  next
    case 10
    from tables_ok_adj [OF ok1] show ?case by (simp add: wired_fields)
  next
    case (8 e' p)
    with tables_okD(9) [OF ok, of e' p] show ?case by (simp add: wired_fields)
  qed (use tables_okD [OF ok] in \<open>auto simp: wired_fields\<close>)
  have pre: "\<forall>p \<in> set (edgenodes g ! e). fst p < nodes ?g2 \<and> snd p < nodes ?g2"
    "e < edges ?g2" "badedge ?g2 ! e" "edgevtx ?g2 e = Some []"
    using tables_okD(9) [OF ok el] tables_okD(5) [OF ok] el by (auto simp: wired_fields)
  note F = fold_explode [OF ok2 s pre, of ident, folded d]
  from F show "tables_ok d g'" by blast
  from F show "name g' = name g @ replicate (length (edgenodes g ! e)) ident"
    by (simp add: wired_fields)
  from F show "nodes g' = nodes g + length (edgenodes g ! e)"
    by (simp add: wired_fields)
  from F show "edgevtx g' = (edgevtx g)(e \<mapsto> [nodes g ..< nodes g + length (edgenodes g ! e)])"
    by (simp add: wired_fields)
  from F show "badedge g' = (badedge g)[e := True]" by (simp add: wired_fields)
  from F show "edgename g' = edgename g" by (simp add: wired_fields)
  from F show "edgenodes g' = edgenodes g" by (simp add: wired_fields)
  from F show "idx g' = idx g" by (simp add: wired_fields)
  from F show "edgeidx g' = edgeidx g" by (simp add: wired_fields)
  from F show "edges g' = edges g" by (simp add: wired_fields)
  from F show "controllers g' = controllers g" by (simp add: wired_fields)
qed


lemma designate_ok:
  assumes ok: "tables_ok d g" and s: "s < 2"
  shows "tables_ok d (designate s ident g)"
proof (cases "edgeidx g ident")
  case None
  then show ?thesis by (simp add: designate_no_edge wired_ok [OF ok s])
next
  case (Some e)
  show ?thesis
  proof (cases "badedge g ! e")
    case False
    from designate_fresh(1) [OF ok s Some False] show ?thesis .
  next
    case True
    let ?g1 = "case idx g ident of None \<Rightarrow> g | Some v \<Rightarrow> wire s v g"
    from ok Some have "e < edges g" by (rule tables_okD(8))
    with True tables_okD(11) [OF ok, of e] obtain vs where vs: "edgevtx g e = Some vs" by auto
    with tables_okD(10) [OF ok] have "\<forall>v \<in> set vs. v < nodes ?g1"
      by (auto simp: wired_fields)
    from fold_wire_ok [OF wired_ok [OF ok s] s this] vs show ?thesis
      by (simp add: designate_again [OF ok Some True])
  qed
qed

lemma designate_frame:
  assumes ok: "tables_ok d g" and s: "s < 2"
  shows "edges (designate s ident g) = edges g" "edgeidx (designate s ident g) = edgeidx g"
    "idx (designate s ident g) = idx g" "edgenodes (designate s ident g) = edgenodes g"
    "edgename (designate s ident g) = edgename g" "controllers (designate s ident g) = controllers g"
    "nodes g \<le> nodes (designate s ident g)"
    "take (nodes g) (name (designate s ident g)) = name g"
proof -
  have "edges (designate s ident g) = edges g \<and> edgeidx (designate s ident g) = edgeidx g \<and>
    idx (designate s ident g) = idx g \<and> edgenodes (designate s ident g) = edgenodes g \<and>
    edgename (designate s ident g) = edgename g \<and> controllers (designate s ident g) = controllers g \<and>
    nodes g \<le> nodes (designate s ident g) \<and> take (nodes g) (name (designate s ident g)) = name g"
  proof (cases "edgeidx g ident")
    case None
    then show ?thesis by (simp add: designate_no_edge wired_fields tables_okD(1) [OF ok])
  next
    case (Some e)
    show ?thesis
    proof (cases "badedge g ! e")
      case False
      note F = designate_fresh [OF ok s Some False]
      show ?thesis by (simp add: F tables_okD(1) [OF ok])
    next
      case True
      show ?thesis
        by (simp add: designate_again [OF ok Some True] wired_fields tables_okD(1) [OF ok])
    qed
  qed
  then show "edges (designate s ident g) = edges g" "edgeidx (designate s ident g) = edgeidx g"
    "idx (designate s ident g) = idx g" "edgenodes (designate s ident g) = edgenodes g"
    "edgename (designate s ident g) = edgename g" "controllers (designate s ident g) = controllers g"
    "nodes g \<le> nodes (designate s ident g)"
    "take (nodes g) (name (designate s ident g)) = name g"
    by blast+
qed

lemma designate_stable:
  assumes ok: "tables_ok d g" and s: "s < 2" and bad: "badedge g ! e" and e: "e < edges g"
  shows "badedge (designate s ident g) ! e \<and> edgevtx (designate s ident g) e = edgevtx g e"
proof (cases "edgeidx g ident")
  case None
  with bad show ?thesis by (simp add: designate_no_edge wired_fields)
next
  case (Some e')
  show ?thesis
  proof (cases "badedge g ! e'")
    case False
    with bad have "e' \<noteq> e" by auto
    with bad show ?thesis
      by (simp add: designate_fresh [OF ok s Some False])
  next
    case True
    with bad show ?thesis
      by (simp add: designate_again [OF ok Some True] wired_fields)
  qed
qed

section \<open>What the reader feeds to the constructor\<close>

definition ident_ok :: "string \<Rightarrow> bool" where
  "ident_ok x \<longleftrightarrow> x \<noteq> [] \<and> last x = newline"

lemma extract_string_ident: "extract_string s = Some (r, s') \<Longrightarrow> ident_ok r"
  by (auto simp: extract_string_def ident_ok_def split: option.splits)

lemma row_body_add_row:
  assumes "row_body s g = Some (s', g')"
  shows "\<exists>e so t. ident_ok e \<and> ident_ok so \<and> ident_ok t \<and> g' = add_row e so t g"
proof -
  from assms obtain b1 s1 edge s2 b3 s3 source s4 b5 s5 target where
    "extract_string s1 = Some (edge, s2)"
    "extract_string s3 = Some (source, s4)"
    "extract_string s5 = Some (target, s')"
    "g' = add_row edge source target g"
    by (auto simp: row_body_def bind_eq_Some_conv)
  then show ?thesis by (blast dest: extract_string_ident)
qed

lemma controller_body_add_controller:
  assumes "controller_body s g = Some (s', g')"
  shows "\<exists>c. ident_ok c \<and> g' = add_controller c g"
proof -
  from assms obtain b1 s1 ctrl where
    "extract_string s1 = Some (ctrl, s')" "g' = add_controller ctrl g"
    by (auto simp: controller_body_def bind_eq_Some_conv)
  then show ?thesis by (blast dest: extract_string_ident)
qed

lemma rows_loop_invariant:
  assumes step: "\<And>e so t g. P g \<Longrightarrow> ident_ok e \<Longrightarrow> ident_ok so \<Longrightarrow> ident_ok t \<Longrightarrow> P (add_row e so t g)"
  shows "rows_loop s g = Some (s', g') \<Longrightarrow> P g \<Longrightarrow> P g'"
proof (induction s g rule: rows_loop.induct)
  case (1 s g)
  from "1.prems"(1) obtain b s1 where b: "begin_field s = Some (b, s1)"
    by (subst (asm) rows_loop.simps) (auto split: option.splits)
  show ?case
  proof (cases b)
    case False
    with b "1.prems" show ?thesis
      by (subst (asm) rows_loop.simps) simp
  next
    case True
    with b "1.prems"(1) obtain s2 g2 s3 where
      r: "row_body s1 g = Some (s2, g2)" and e: "end_field s2 = Some s3"
      and l: "rows_loop s3 g2 = Some (s', g')"
      by (subst (asm) rows_loop.simps) (auto split: option.splits)
    from row_body_add_row [OF r] step "1.prems"(2) have "P g2" by blast
    with "1.IH" [OF b refl _ r refl e l] True show ?thesis by simp
  qed
qed

lemma controllers_loop_invariant:
  assumes step: "\<And>c g. P g \<Longrightarrow> ident_ok c \<Longrightarrow> P (add_controller c g)"
  shows "controllers_loop s g = Some (s', g') \<Longrightarrow> P g \<Longrightarrow> P g'"
proof (induction s g rule: controllers_loop.induct)
  case (1 s g)
  from "1.prems"(1) obtain b s1 where b: "begin_field s = Some (b, s1)"
    by (subst (asm) controllers_loop.simps) (auto split: option.splits)
  show ?case
  proof (cases b)
    case False
    with b "1.prems" show ?thesis
      by (subst (asm) controllers_loop.simps) simp
  next
    case True
    with b "1.prems"(1) obtain s2 g2 s3 where
      r: "controller_body s1 g = Some (s2, g2)" and e: "end_field s2 = Some s3"
      and l: "controllers_loop s3 g2 = Some (s', g')"
      by (subst (asm) controllers_loop.simps) (auto split: option.splits)
    from controller_body_add_controller [OF r] step "1.prems"(2) have "P g2" by blast
    with "1.IH" [OF b refl _ r refl e l] True show ?thesis by simp
  qed
qed

lemma fold_add_start_invariant:
  assumes step: "\<And>l g. P g \<Longrightarrow> P (add_start l g)"
  shows "P g \<Longrightarrow> P (fold add_start ls g)"
  by (induction ls arbitrary: g) (simp_all add: step)

lemma read_graph_invariant:
  assumes init: "P init_graph"
    and row: "\<And>e so t g. P g \<Longrightarrow> ident_ok e \<Longrightarrow> ident_ok so \<Longrightarrow> ident_ok t \<Longrightarrow> P (add_row e so t g)"
    and dummy: "\<And>g. P g \<Longrightarrow> Q (add_dummy g)"
    and ctrl: "\<And>c g. Q g \<Longrightarrow> ident_ok c \<Longrightarrow> Q (add_controller c g)"
    and start: "\<And>l g. Q g \<Longrightarrow> Q (add_start l g)"
    and run: "read_graph text sp = Some g"
  shows "Q g"
proof -
  from run obtain g2 where j: "read_json text = Some g2"
    and g: "g = fold add_start (getlines [] sp) g2"
    by (auto simp: read_graph_def bind_eq_Some_conv)
  from j obtain s3 s4 g1 s6 s7 where
    r: "rows_loop s3 init_graph = Some (s4, g1)"
    and c: "controllers_loop s6 (add_dummy g1) = Some (s7, g2)"
    by (auto simp: read_json_def bind_eq_Some_conv)
  from rows_loop_invariant [of P, OF row r init] have "P g1" by blast
  then have "Q (add_dummy g1)" by (rule dummy)
  with controllers_loop_invariant [of Q, OF ctrl c] have "Q g2" by blast
  with fold_add_start_invariant [of Q, OF start] show ?thesis unfolding g by blast
qed

section \<open>Sizes, ranges and identifiers after construction\<close>

lemma tables_ok_controllers [simp]: "tables_ok d (g\<lparr>controllers := c\<rparr>) = tables_ok d g"
  by (simp add: tables_ok_def)

lemma HEAD_TAIL_less [simp]: "HEAD < 2" "TAIL < 2"
  by (simp_all add: HEAD_def TAIL_def)

lemma add_controller_ok: "tables_ok d g \<Longrightarrow> tables_ok d (add_controller c g)"
  by (simp add: add_controller_def designate_ok)

lemma add_start_ok: "tables_ok d g \<Longrightarrow> tables_ok d (add_start l g)"
  by (simp add: add_start_def designate_ok)

lemma read_graph_tables_ok: "read_graph text sp = Some g \<Longrightarrow> tables_ok 1 g"
proof (rule read_graph_invariant [where P = "tables_ok 0" and Q = "tables_ok 1"])
  show "tables_ok 0 init_graph" by (rule tables_ok_init)
  show "\<And>g. tables_ok 0 g \<Longrightarrow> tables_ok 1 (add_dummy g)"
    using add_dummy_ok [of 0] by simp
qed (simp_all add: add_row_ok add_controller_ok add_start_ok)

definition json1 :: string where
  "json1 = ''{'' @ quoted ''rows'' @ '':[{'' @ quoted ''viaGlobalId'' @ '':'' @ quoted ''E1'' @ '','' @
     quoted ''fromGlobalId'' @ '':'' @ quoted ''A'' @ '','' @ quoted ''toGlobalId'' @ '':'' @ quoted ''B''
     @ ''}],'' @ quoted ''controllers'' @ '':[{'' @ quoted ''globalId'' @ '':'' @ quoted ''B'' @ ''}]}''"

lemma read_graph_json1: "read_graph json1 ''A'' = Some (the (read_graph json1 ''A''))"
proof -
  have "\<not> Option.is_none (read_graph json1 ''A'')" by code_simp
  then show ?thesis by (simp add: Option.is_none_def)
qed

text \<open>
  Claim C9.  When \<open>read_graph\<close> returns (the default, order-dependent build), \<open>name\<close>
  and \<open>graph\<close> have \<open>nodes\<close> elements, \<open>edgename\<close> and \<open>badedge\<close> have
  \<open>edges + 1\<close> elements, and every adjacency entry \<open>(u, e)\<close> of every vertex has
  \<open>u < nodes\<close> and \<open>e \<le> edges\<close>.
\<close>

theorem read_graph_tables_in_range:
  assumes "read_graph text sp = Some g"
  shows "length (name g) = nodes g \<and> length (graph g) = nodes g \<and>
    length (edgename g) = edges g + 1 \<and> length (badedge g) = edges g + 1 \<and>
    (\<forall>v < nodes g. \<forall>(u, e) \<in> set (graph g ! v). u < nodes g \<and> e \<le> edges g)"
proof -
  from assms have ok: "tables_ok 1 g" by (rule read_graph_tables_ok)
  from tables_ok_adj [OF ok] have "\<forall>v < nodes g. \<forall>(u, e) \<in> set (graph g ! v). u < nodes g \<and> e \<le> edges g"
    by (fastforce simp: adj_ok_def)
  with tables_okD(1,2,4,5) [OF ok] show ?thesis by simp
qed

theorem read_graph_tables_in_range_witness:
  "read_graph json1 ''A'' = Some (the (read_graph json1 ''A'')) \<and>
   length (name (the (read_graph json1 ''A''))) = 4 \<and>
   length (graph (the (read_graph json1 ''A''))) = nodes (the (read_graph json1 ''A'')) \<and>
   length (edgename (the (read_graph json1 ''A''))) = 2 \<and>
   length (badedge (the (read_graph json1 ''A''))) = edges (the (read_graph json1 ''A'')) + 1"
proof -
  have "length (name (the (read_graph json1 ''A''))) = 4"
    "length (edgename (the (read_graph json1 ''A''))) = 2" by code_simp+
  with read_graph_tables_in_range [OF read_graph_json1] read_graph_json1 show ?thesis by simp
qed


definition names_ok :: "gstate \<Rightarrow> bool" where
  "names_ok g \<longleftrightarrow>
     (\<forall>k v. idx g k = Some v \<longrightarrow> ident_ok k) \<and> (\<forall>k e. edgeidx g k = Some e \<longrightarrow> ident_ok k) \<and>
     2 \<le> length (name g) \<and> name g ! HEAD = [] \<and> name g ! TAIL = []"




lemma names_ok_controllers [simp]: "names_ok (g\<lparr>controllers := c\<rparr>) = names_ok g"
  by (simp add: names_ok_def)


section \<open>The adjacency lists are mirrored\<close>

definition sym_adj :: "(nat \<times> nat) list list \<Rightarrow> bool" where
  "sym_adj t \<longleftrightarrow>
     (\<forall>u < length t. \<forall>v < length t. \<forall>e. count_list (t ! u) (v, e) = count_list (t ! v) (u, e))"

lemma count_emplace:
  "u < length t \<Longrightarrow>
   count_list (emplace_at a x t ! u) y = count_list (t ! u) y + (if u = a \<and> x = y then 1 else 0)"
  by (simp add: nth_emplace_at)

lemma sym_link:
  "sym_adj t \<Longrightarrow> a < length t \<Longrightarrow> b < length t \<Longrightarrow>
   sym_adj (emplace_at b (a, e) (emplace_at a (b, e) t))"
  by (auto simp: sym_adj_def count_emplace)

lemma sym_grow:
  assumes "sym_adj t" "adj_ok n m t"
  shows "sym_adj (t @ [[]])"
proof -
  from assms(2) have len: "length t = n"
    and out: "\<And>v e. v < n \<Longrightarrow> count_list (t ! v) (n, e) = 0"
    by (fastforce simp: adj_ok_def count_list_0_iff)+
  with assms(1) show ?thesis
    by (auto simp: sym_adj_def nth_append less_Suc_eq)
qed

lemma vertex_of_sym:
  assumes "tables_ok d g" "sym_adj (graph g)" "vertex_of s g = (v, g')"
  shows "sym_adj (graph g')"
proof (cases "idx g s")
  case None
  with assms(3) have "graph g' = graph g @ [[]]" by (auto simp: vertex_of_def)
  with sym_grow [OF assms(2) tables_ok_adj [OF assms(1)]] show ?thesis by simp
next
  case (Some w)
  with assms show ?thesis by (auto simp: vertex_of_def)
qed

lemma add_row_sym:
  assumes ok: "tables_ok d g" and sym: "sym_adj (graph g)"
  shows "sym_adj (graph (add_row edge source target g))"
proof -
  obtain sv g1 where 1: "vertex_of source g = (sv, g1)" by fastforce
  obtain tv g2 where 2: "vertex_of target g1 = (tv, g2)" by fastforce
  obtain ev g3 where 3: "edge_of edge g2 = (ev, g3)" by fastforce
  from vertex_of_ok [OF ok 1] have ok1: "tables_ok d g1" and sv: "sv < nodes g1" by auto
  from vertex_of_ok [OF ok1 2] have ok2: "tables_ok d g2" and tv: "tv < nodes g2"
    and n12: "nodes g1 \<le> nodes g2" by auto
  from vertex_of_sym [OF ok sym 1] have "sym_adj (graph g1)" .
  from vertex_of_sym [OF ok1 this 2] have s2: "sym_adj (graph g2)" .
  from edge_of_ok [OF ok2 3] have g3: "graph g3 = graph g2" by simp
  have r: "graph (add_row edge source target g) =
      emplace_at tv (sv, ev) (emplace_at sv (tv, ev) (graph g2))"
    by (simp add: add_row_def 1 2 3 g3)
  from sv tv n12 tables_okD(2) [OF ok2] show ?thesis
    unfolding r by (intro sym_link s2) simp_all
qed

lemma wire_sym:
  assumes "tables_ok d g" "sym_adj (graph g)" "s < 2" "v < nodes g"
  shows "sym_adj (graph (wire s v g))"
  using assms tables_okD(2,3) [OF assms(1)]
  by (simp add: wire_def sym_link)

lemma fold_wire_sym:
  "tables_ok d g \<Longrightarrow> sym_adj (graph g) \<Longrightarrow> s < 2 \<Longrightarrow> \<forall>v \<in> set vs. v < nodes g \<Longrightarrow>
   sym_adj (graph (fold (wire s) vs g))"
  by (induction vs arbitrary: g) (simp_all add: wire_sym wire_ok)

lemma explode_segment_sym:
  assumes ok: "tables_ok d g" and sym: "sym_adj (graph g)" and s: "s < 2"
    and p: "fst p < nodes g" "snd p < nodes g"
  shows "sym_adj (graph (explode_segment s ident e p g))"
proof -
  let ?n = "nodes g" and ?m = "edges g"
  note len = tables_okD(2,3) [OF ok]
  have 0: "sym_adj (graph g @ [[]])" by (rule sym_grow [OF sym tables_ok_adj [OF ok]])
  have 1: "sym_adj (emplace_at ?n (s, ?m) (emplace_at s (?n, ?m) (graph g @ [[]])))"
    using len s by (intro sym_link 0) simp_all
  have 2: "sym_adj (emplace_at (fst p) (?n, ?m) (emplace_at ?n (fst p, ?m)
      (emplace_at ?n (s, ?m) (emplace_at s (?n, ?m) (graph g @ [[]])))))"
    using len p by (intro sym_link 1) simp_all
  have 3: "sym_adj (emplace_at (snd p) (?n, ?m) (emplace_at ?n (snd p, ?m)
      (emplace_at (fst p) (?n, ?m) (emplace_at ?n (fst p, ?m)
      (emplace_at ?n (s, ?m) (emplace_at s (?n, ?m) (graph g @ [[]])))))))"
    using len p by (intro sym_link 2) simp_all
  then show ?thesis by (simp only: explode_segment_graph)
qed

lemma fold_explode_sym:
  assumes "tables_ok d g" "sym_adj (graph g)" "s < 2"
    "\<forall>p \<in> set ps. fst p < nodes g \<and> snd p < nodes g" "e < edges g" "badedge g ! e"
  shows "sym_adj (graph (fold (explode_segment s ident e) ps g))"
  using assms
proof (induction ps arbitrary: g)
  case Nil
  then show ?case by simp
next
  case (Cons p ps)
  let ?g = "explode_segment s ident e p g"
  from Cons.prems have ok: "tables_ok d ?g" by (intro explode_segment_ok) auto
  from Cons.prems have sym: "sym_adj (graph ?g)" by (intro explode_segment_sym) auto
  from Cons.prems have "\<forall>p \<in> set ps. fst p < nodes ?g \<and> snd p < nodes ?g"
    "e < edges ?g" "badedge ?g ! e"
    by (auto simp: less_Suc_eq)
  from Cons.IH [OF ok sym Cons.prems(3) this] show ?case by simp
qed

lemma wired_sym:
  assumes "tables_ok d g" "sym_adj (graph g)" "s < 2"
  shows "sym_adj (graph (case idx g ident of None \<Rightarrow> g | Some v \<Rightarrow> wire s v g))"
proof (cases "idx g ident")
  case None
  with assms show ?thesis by simp
next
  case (Some v)
  with tables_okD(7) [OF assms(1)] have "v < nodes g" by blast
  with assms Some show ?thesis by (simp add: wire_sym)
qed

lemma designate_sym:
  assumes ok: "tables_ok d g" and sym: "sym_adj (graph g)" and s: "s < 2"
  shows "sym_adj (graph (designate s ident g))"
proof (cases "edgeidx g ident")
  case None
  then show ?thesis by (simp add: designate_no_edge wired_sym [OF ok sym s])
next
  case (Some e)
  let ?g1 = "case idx g ident of None \<Rightarrow> g | Some v \<Rightarrow> wire s v g"
  from ok Some have el: "e < edges g" by (rule tables_okD(8))
  note ok1 = wired_ok [OF ok s, of ident] and sym1 = wired_sym [OF ok sym s, of ident]
  show ?thesis
  proof (cases "badedge g ! e")
    case True
    with el tables_okD(11) [OF ok, of e] obtain vs where vs: "edgevtx g e = Some vs" by auto
    with tables_okD(10) [OF ok] have "\<forall>v \<in> set vs. v < nodes ?g1"
      by (auto simp: wired_fields)
    from fold_wire_sym [OF ok1 sym1 s this] vs show ?thesis
      by (simp add: designate_again [OF ok Some True])
  next
    case False
    let ?g2 = "?g1\<lparr>badedge := (badedge g)[e := True], edgevtx := (edgevtx g)(e \<mapsto> [])\<rparr>"
    from el False tables_okD(11) [OF ok, of e] have none: "edgevtx g e = None" by auto
    have d: "designate s ident g = fold (explode_segment s ident e) (edgenodes g ! e) ?g2"
      using Some False none by (simp add: designate_def Let_def wired_fields)
    have ok2: "tables_ok d ?g2"
    proof (rule tables_okI, goal_cases)
      case (11 e')
      from tables_okD(11) [OF ok, of e'] tables_okD(5) [OF ok] el show ?case
        by (cases "e' = e") (auto simp: wired_fields)
    next
      case (9 e' vs v)
      with tables_okD(10) [OF ok, of e' vs v] show ?case
        by (cases "e' = e") (auto simp: wired_fields)
    next
      case (12 e')
      with tables_okD(12) [OF ok, of e'] el show ?case by (auto simp: wired_fields)
    next
      case 10
      from tables_ok_adj [OF ok1] show ?case by (simp add: wired_fields)
    next
      case (8 e' p)
      with tables_okD(9) [OF ok, of e' p] show ?case by (simp add: wired_fields)
    qed (use tables_okD [OF ok] in \<open>auto simp: wired_fields\<close>)
    have pre: "\<forall>p \<in> set (edgenodes g ! e). fst p < nodes ?g2 \<and> snd p < nodes ?g2"
      "e < edges ?g2" "badedge ?g2 ! e"
      using tables_okD(9) [OF ok el] tables_okD(5) [OF ok] el by (auto simp: wired_fields)
    from sym1 have sym2: "sym_adj (graph ?g2)" by simp
    from fold_explode_sym [OF ok2 sym2 s pre] show ?thesis by (simp only: d)
  qed
qed


lemma read_graph_sym:
  assumes "read_graph text sp = Some g"
  shows "tables_ok 1 g \<and> sym_adj (graph g)"
proof (rule read_graph_invariant [where P = "\<lambda>g. tables_ok 0 g \<and> sym_adj (graph g)"
      and Q = "\<lambda>g. tables_ok 1 g \<and> sym_adj (graph g)", OF _ _ _ _ _ assms], goal_cases)
  case 1
  have "sym_adj (graph init_graph)"
    by (simp add: sym_adj_def init_graph_def less_Suc_eq numeral_2_eq_2)
  with tables_ok_init show ?case by simp
next
  case (2 e so t g)
  then have "tables_ok 0 g" "sym_adj (graph g)" by simp_all
  then show ?case by (simp add: add_row_ok add_row_sym [of 0])
next
  case (3 g)
  with add_dummy_ok [of 0 g] show ?case by (simp add: add_dummy_def)
next
  case (4 c g)
  let ?g = "g\<lparr>controllers := controllers g + 1\<rparr>"
  from 4 have ok: "tables_ok 1 ?g" and sym: "sym_adj (graph ?g)" by simp_all
  from designate_ok [OF ok, of TAIL c] designate_sym [OF ok sym, of TAIL c]
  show ?case by (simp add: add_controller_def)
next
  case (5 l g)
  then have ok: "tables_ok 1 g" and sym: "sym_adj (graph g)" by simp_all
  from designate_ok [OF ok, of HEAD "start_key l"] designate_sym [OF ok sym, of HEAD "start_key l"]
  show ?case by (simp add: add_start_def)
qed

text \<open>
  Claim C5.  When \<open>read_graph\<close> returns, for all vertices \<open>u\<close> and \<open>v\<close> and every edge index
  \<open>e\<close> the pair \<open>(v, e)\<close> occurs in \<open>graph[u]\<close> as often as \<open>(u, e)\<close> occurs in
  \<open>graph[v]\<close>.  Rows, substitute vertices and sentinel wiring all go through the same
  mirrored pair of \<open>emplace_back\<close> calls.
\<close>

theorem read_graph_symmetric:
  assumes "read_graph text sp = Some g" and "u < nodes g" and "v < nodes g"
  shows "count_list (graph g ! u) (v, e) = count_list (graph g ! v) (u, e)"
  using read_graph_sym [OF assms(1)] assms(2,3) tables_okD(2) [of 1 g]
  by (simp add: sym_adj_def)

theorem read_graph_symmetric_witness:
  "read_graph json1 ''A'' = Some (the (read_graph json1 ''A'')) \<and>
   2 < nodes (the (read_graph json1 ''A'')) \<and> 3 < nodes (the (read_graph json1 ''A'')) \<and>
   count_list (graph (the (read_graph json1 ''A'')) ! 2) (3, 0) = 1 \<and>
   count_list (graph (the (read_graph json1 ''A'')) ! 3) (2, 0) = 1"
proof -
  have n: "nodes (the (read_graph json1 ''A'')) = 4"
    and c: "count_list (graph (the (read_graph json1 ''A'')) ! 2) (3, 0) = 1" by code_simp+
  from read_graph_symmetric [OF read_graph_json1, of 2 3 0] n c read_graph_json1
  show ?thesis by simp
qed

section \<open>Reduction 1 happens once for each edge\<close>

text \<open>
  A designation is one element of the controllers list or one line of the starting-points
  file; the constructor handles it by \<open>add_controller\<close> or \<open>add_start\<close>.
\<close>

datatype designation = Controller string | Start string

fun apply_designation :: "designation \<Rightarrow> gstate \<Rightarrow> gstate" where
  "apply_designation (Controller c) g = add_controller c g"
| "apply_designation (Start l) g = add_start l g"

fun ident_of :: "designation \<Rightarrow> string" where
  "ident_of (Controller c) = c"
| "ident_of (Start l) = start_key l"

fun sentinel_of :: "designation \<Rightarrow> nat" where
  "sentinel_of (Controller c) = TAIL"
| "sentinel_of (Start l) = HEAD"

lemma apply_designation_eq:
  "apply_designation x g =
     designate (sentinel_of x) (ident_of x)
       (g\<lparr>controllers := controllers g + (case x of Controller c \<Rightarrow> 1 | Start l \<Rightarrow> 0)\<rparr>)"
  by (cases x) (simp_all add: add_controller_def add_start_def)

lemma sentinel_of_less [simp]: "sentinel_of x < 2"
  by (cases x) simp_all

lemma wire_controllers: "wire s v (g\<lparr>controllers := c\<rparr>) = (wire s v g)\<lparr>controllers := c\<rparr>"
  by (simp add: wire_def)

lemma fold_wire_controllers:
  "fold (wire s) vs (g\<lparr>controllers := c\<rparr>) = (fold (wire s) vs g)\<lparr>controllers := c\<rparr>"
  by (induction vs arbitrary: g) (simp_all add: wire_controllers)

lemma apply_designation_step:
  assumes ok: "tables_ok d g"
  shows "tables_ok d (apply_designation x g)"
    and "edges (apply_designation x g) = edges g"
    and "edgeidx (apply_designation x g) = edgeidx g"
    and "idx (apply_designation x g) = idx g"
    and "badedge g ! e \<Longrightarrow> e < edges g \<Longrightarrow>
         badedge (apply_designation x g) ! e \<and> edgevtx (apply_designation x g) e = edgevtx g e"
proof -
  let ?g = "g\<lparr>controllers := controllers g + (case x of Controller c \<Rightarrow> 1 | Start l \<Rightarrow> 0)\<rparr>"
  from ok have ok': "tables_ok d ?g" by simp
  from designate_ok [OF ok' sentinel_of_less] show "tables_ok d (apply_designation x g)"
    by (simp only: apply_designation_eq)
  from designate_frame(1) [OF ok' sentinel_of_less] show "edges (apply_designation x g) = edges g"
    by (simp add: apply_designation_eq)
  from designate_frame(2) [OF ok' sentinel_of_less] show "edgeidx (apply_designation x g) = edgeidx g"
    by (simp add: apply_designation_eq)
  from designate_frame(3) [OF ok' sentinel_of_less] show "idx (apply_designation x g) = idx g"
    by (simp add: apply_designation_eq)
  assume "badedge g ! e" "e < edges g"
  then have "badedge ?g ! e" "e < edges ?g" by simp_all
  from designate_stable [OF ok' sentinel_of_less this]
  show "badedge (apply_designation x g) ! e \<and> edgevtx (apply_designation x g) e = edgevtx g e"
    by (simp add: apply_designation_eq)
qed

lemma fold_apply_designation:
  assumes "tables_ok d g" "badedge g ! e" "e < edges g"
  shows "tables_ok d (fold apply_designation xs g) \<and>
    edges (fold apply_designation xs g) = edges g \<and>
    edgeidx (fold apply_designation xs g) = edgeidx g \<and>
    badedge (fold apply_designation xs g) ! e \<and>
    edgevtx (fold apply_designation xs g) e = edgevtx g e"
  using assms
proof (induction xs arbitrary: g)
  case Nil
  then show ?case by simp
next
  case (Cons x xs)
  note S = apply_designation_step [OF Cons.prems(1), where x = x]
  from S(5) [OF Cons.prems(2,3)] S(2) Cons.prems(3)
  have "badedge (apply_designation x g) ! e" "e < edges (apply_designation x g)" by simp_all
  from Cons.IH [OF S(1) this] S(2,3) S(5) [OF Cons.prems(2,3)] show ?case by simp
qed

lemma read_graph_json1_nostart: "read_graph json1 [] = Some (the (read_graph json1 []))"
proof -
  have "\<not> Option.is_none (read_graph json1 [])" by code_simp
  then show ?thesis by (simp add: Option.is_none_def)
qed

text \<open>What reduction 2 appends to the adjacency lists.\<close>

lemma wire_nth:
  assumes "s < length (graph g)" "v < length (graph g)" "v \<noteq> s" "x < length (graph g)"
  shows "graph (wire s v g) ! x =
     graph g ! x @ (if x = s then [(v, edges g)] else if x = v then [(s, edges g)] else [])"
  using assms by (simp add: wire_def nth_emplace_at)

lemma length_graph_wire [simp]: "length (graph (wire s v g)) = length (graph g)"
  by (simp add: wire_def)

lemma length_graph_fold_wire [simp]: "length (graph (fold (wire s) vs g)) = length (graph g)"
  by (induction vs arbitrary: g) simp_all

lemma fold_wire_nth:
  assumes "s < length (graph g)" "\<forall>v \<in> set vs. v < length (graph g) \<and> v \<noteq> s" "distinct vs"
    "x < length (graph g)"
  shows "graph (fold (wire s) vs g) ! x =
     graph g ! x @ (if x = s then map (\<lambda>v. (v, edges g)) vs
                    else if x \<in> set vs then [(s, edges g)] else [])"
  using assms
proof (induction vs arbitrary: g)
  case Nil
  then show ?case by simp
next
  case (Cons v vs)
  let ?g = "wire s v g"
  from Cons.prems have v: "v < length (graph g)" "v \<noteq> s" "v \<notin> set vs" by auto
  from Cons.prems have pre: "s < length (graph ?g)" "\<forall>v \<in> set vs. v < length (graph ?g) \<and> v \<noteq> s"
    "distinct vs" "x < length (graph ?g)" by auto
  note IH = Cons.IH [OF pre]
  note W = wire_nth [OF Cons.prems(1) v(1,2) Cons.prems(4)]
  show ?case
  proof (cases "x = s")
    case True
    with IH W show ?thesis by simp
  next
    case False
    with IH W v show ?thesis by (cases "x = v") auto
  qed
qed

text \<open>
  Claim C4.  Let \<open>first\<close> be the first designation naming an edge identifier whose edge
  \<open>e\<close> is not deleted yet.  It sets the deleted flag and creates one substitute vertex
  for each recorded segment, named after the edge, \<open>edgevtx[e]\<close> being the new indices.
  Whatever designations follow, \<open>edgevtx[e]\<close> stays as it is, and a later designation
  \<open>again\<close> of the same identifier creates no vertex and deletes nothing: the adjacency
  list of its sentinel gains one entry for the vertex of that name (if there is one) and
  one for each substitute vertex, each of these vertices gains one entry for the sentinel,
  all over the dummy edge, and no other adjacency list changes.
\<close>

theorem exploded_exactly_once:
  fixes first again :: designation and between :: "designation list"
  assumes ok: "tables_ok d g" and e: "edgeidx g (ident_of first) = Some e"
    and fresh: "\<not> badedge g ! e" and same: "ident_of again = ident_of first"
  defines "g1 \<equiv> apply_designation first g"
  defines "g2 \<equiv> fold apply_designation between g1"
  defines "g3 \<equiv> apply_designation again g2"
  shows "badedge g1 ! e \<and> nodes g1 = nodes g + length (edgenodes g ! e) \<and>
    name g1 = name g @ replicate (length (edgenodes g ! e)) (ident_of first) \<and>
    edgevtx g1 e = Some [nodes g ..< nodes g1] \<and>
    edgevtx g2 e = edgevtx g1 e \<and>
    nodes g3 = nodes g2 \<and> name g3 = name g2 \<and> edgevtx g3 = edgevtx g2 \<and>
    badedge g3 = badedge g2 \<and> length (graph g3) = nodes g2 \<and>
    (\<forall>x < nodes g2. graph g3 ! x = graph g2 ! x @
       (if x = sentinel_of again then
          (case idx g2 (ident_of again) of None \<Rightarrow> [] | Some w \<Rightarrow> [(w, edges g)]) @
          map (\<lambda>v. (v, edges g)) [nodes g ..< nodes g1]
        else if idx g2 (ident_of again) = Some x \<or> (nodes g \<le> x \<and> x < nodes g1) then
          [(sentinel_of again, edges g)]
        else []))"
proof -
  let ?b = "\<lambda>x g. g\<lparr>controllers := controllers g + (case x of Controller c \<Rightarrow> 1 | Start l \<Rightarrow> (0::nat))\<rparr>"
  let ?s = "sentinel_of again" and ?id = "ident_of again"
  let ?vs = "[nodes g ..< nodes g1]"
  from ok have ok0: "tables_ok d (?b first g)" by simp
  from e fresh have e0: "edgeidx (?b first g) (ident_of first) = Some e"
    and f0: "\<not> badedge (?b first g) ! e" by simp_all
  have g1: "g1 = designate (sentinel_of first) (ident_of first) (?b first g)"
    by (simp only: g1_def apply_designation_eq)
  note F = designate_fresh [OF ok0 sentinel_of_less e0 f0]
  from ok e have el: "e < edges g" by (rule tables_okD(8))
  with tables_okD(5) [OF ok] have b1: "badedge g1 ! e" unfolding g1 by (simp add: F(5))
  have n1: "nodes g1 = nodes g + length (edgenodes g ! e)" unfolding g1 by (simp add: F(3))
  have nm1: "name g1 = name g @ replicate (length (edgenodes g ! e)) (ident_of first)"
    unfolding g1 by (simp add: F(2))
  have v1: "edgevtx g1 e = Some [nodes g ..< nodes g1]" unfolding g1 by (simp add: F(3,4))
  from el have el1: "e < edges g1" unfolding g1 by (simp add: F(10))
  have ed1: "edges g1 = edges g" unfolding g1 by (simp add: F(10))
  have ok1: "tables_ok d g1" unfolding g1 by (rule F(1))
  have i1: "edgeidx g1 = edgeidx g" unfolding g1 by (simp add: F(9))
  note G = fold_apply_designation [OF ok1 b1 el1, where xs = between, folded g2_def]
  from G have ok2: "tables_ok d g2" and b2: "badedge g2 ! e" and v2: "edgevtx g2 e = edgevtx g1 e"
    and e2: "edgeidx g2 (ident_of again) = Some e" and ed2: "edges g2 = edges g"
    using e same by (simp_all add: i1 ed1)
  from ok2 have ok2': "tables_ok d (?b again g2)" by simp
  from e2 b2 have e2': "edgeidx (?b again g2) (ident_of again) = Some e"
    and b2': "badedge (?b again g2) ! e" by simp_all
  let ?w = "case idx g2 ?id of None \<Rightarrow> g2 | Some v \<Rightarrow> wire ?s v g2"
  have g3: "g3 = (fold (wire ?s) ?vs ?w)
      \<lparr>controllers := controllers g2 + (case again of Controller c \<Rightarrow> 1 | Start l \<Rightarrow> 0)\<rparr>"
    unfolding g3_def apply_designation_eq designate_again [OF ok2' e2' b2']
    by (simp add: v2 v1 fold_wire_controllers wire_controllers split: option.split)
  note T = tables_okD [OF ok2]
  have sl: "?s < 2" by simp
  from T(2,3) sl have s2: "?s < length (graph g2)" by linarith
  have lw: "length (graph ?w) = nodes g2" "edges ?w = edges g"
    using T(2) ed2 by (simp_all split: option.split)
  have w: "graph ?w ! x = graph g2 ! x @
      (if x = ?s then (case idx g2 ?id of None \<Rightarrow> [] | Some w \<Rightarrow> [(w, edges g)])
       else if idx g2 ?id = Some x then [(?s, edges g)] else [])" if x: "x < nodes g2" for x
  proof (cases "idx g2 ?id")
    case None
    then show ?thesis by simp
  next
    case (Some u)
    from T(7) [OF Some] sl T(2) have u: "u < length (graph g2)" "u \<noteq> ?s"
      by linarith+
    from x T(2) have "x < length (graph g2)" by simp
    from wire_nth [OF s2 u this] Some u(2) show ?thesis by (auto simp: ed2)
  qed
  from v2 v1 have "edgevtx g2 e = Some ?vs" by simp
  from T(10) [OF this] have vs: "\<forall>v \<in> set ?vs. v < length (graph ?w) \<and> v \<noteq> ?s"
  proof (intro ballI conjI)
    fix v assume v: "v \<in> set ?vs"
    with \<open>\<And>v. v \<in> set ?vs \<Longrightarrow> v < nodes g2\<close> lw(1) show "v < length (graph ?w)" by simp
    from v have "nodes g \<le> v" by simp
    with tables_okD(3) [OF ok] sl show "v \<noteq> ?s" by linarith
  qed
  have sw: "?s < length (graph ?w)" using s2 T(2) lw(1) by simp
  have notidx: "idx g2 ?id \<noteq> Some x" if "nodes g \<le> x" for x
  proof
    assume a: "idx g2 ?id = Some x"
    have "idx g2 = idx g"
    proof -
      have "idx g1 = idx g" unfolding g1 by (simp add: F(8))
      moreover have "idx (fold apply_designation xs h) = idx h" if "tables_ok d h" for xs h
        using that
      proof (induction xs arbitrary: h)
        case Nil
        then show ?case by simp
      next
        case (Cons y ys)
        from apply_designation_step(1,4) [OF Cons.prems, of y] Cons.IH show ?case by simp
      qed
      ultimately show ?thesis unfolding g2_def using ok1 by simp
    qed
    with a tables_okD(7) [OF ok, of ?id x] that show False by simp
  qed
  have main: "graph g3 ! x = graph g2 ! x @
       (if x = ?s then
          (case idx g2 ?id of None \<Rightarrow> [] | Some w \<Rightarrow> [(w, edges g)]) @
          map (\<lambda>v. (v, edges g)) ?vs
        else if idx g2 ?id = Some x \<or> (nodes g \<le> x \<and> x < nodes g1) then [(?s, edges g)]
        else [])" if x: "x < nodes g2" for x
  proof -
    from x lw(1) have xw: "x < length (graph ?w)" by simp
    have "graph g3 ! x = graph ?w ! x @
        (if x = ?s then map (\<lambda>v. (v, edges ?w)) ?vs
         else if x \<in> set ?vs then [(?s, edges ?w)] else [])"
      unfolding g3 using fold_wire_nth [OF sw vs _ xw] by simp
    with w [OF x] notidx [of x] show ?thesis unfolding lw(2) by auto
  qed
  have len: "length (graph g3) = nodes g2" unfolding g3 using lw(1) by simp
  from b1 n1 nm1 v1 v2 len main show ?thesis
    by (simp add: g3 wired_fields)
qed

theorem exploded_exactly_once_witness:
  "tables_ok 1 (the (read_graph json1 [])) \<and>
   edgeidx (the (read_graph json1 [])) (ident_of (Controller (''E1'' @ [newline]))) = Some 0 \<and>
   \<not> badedge (the (read_graph json1 [])) ! 0 \<and>
   ident_of (Start ''E1'') = ident_of (Controller (''E1'' @ [newline])) \<and>
   nodes (apply_designation (Controller (''E1'' @ [newline])) (the (read_graph json1 []))) = 5 \<and>
   edgevtx (apply_designation (Controller (''E1'' @ [newline])) (the (read_graph json1 []))) 0 = Some [4] \<and>
   nodes (apply_designation (Start ''E1'')
           (fold apply_designation [Start ''A'']
             (apply_designation (Controller (''E1'' @ [newline])) (the (read_graph json1 []))))) =
   nodes (fold apply_designation [Start ''A'']
           (apply_designation (Controller (''E1'' @ [newline])) (the (read_graph json1 [])))) \<and>
   graph (apply_designation (Start ''E1'')
           (fold apply_designation [Start ''A'']
             (apply_designation (Controller (''E1'' @ [newline])) (the (read_graph json1 []))))) ! 0 =
   graph (fold apply_designation [Start ''A'']
           (apply_designation (Controller (''E1'' @ [newline])) (the (read_graph json1 [])))) ! 0
     @ [(4, 1)] \<and>
   graph (apply_designation (Start ''E1'')
           (fold apply_designation [Start ''A'']
             (apply_designation (Controller (''E1'' @ [newline])) (the (read_graph json1 []))))) ! 4 =
   graph (fold apply_designation [Start ''A'']
           (apply_designation (Controller (''E1'' @ [newline])) (the (read_graph json1 [])))) ! 4
     @ [(0, 1)]"
proof -
  let ?g = "the (read_graph json1 [])"
  let ?g2 = "fold apply_designation [Start ''A'']
           (apply_designation (Controller (''E1'' @ [newline])) ?g)"
  have ok: "tables_ok 1 ?g"
    by (rule read_graph_tables_ok [OF read_graph_json1_nostart])
  have e: "edgeidx ?g (ident_of (Controller (''E1'' @ [newline]))) = Some 0"
    and f: "\<not> badedge ?g ! 0"
    and n: "nodes ?g = 4" and ed: "edges ?g = 1"
    and l: "length (edgenodes ?g ! 0) = 1"
    and i: "idx ?g2 (ident_of (Start ''E1'')) = None"
    and n2: "nodes ?g2 = 5"
    by code_simp+
  have s: "ident_of (Start ''E1'') = ident_of (Controller (''E1'' @ [newline]))"
    by (simp add: start_key_def)
  note E = exploded_exactly_once [OF ok e f s, of "[Start ''A'']"]
  from E have a: "\<forall>x < nodes ?g2. graph (apply_designation (Start ''E1'') ?g2) ! x = graph ?g2 ! x @
       (if x = sentinel_of (Start ''E1'') then
          (case idx ?g2 (ident_of (Start ''E1'')) of None \<Rightarrow> [] | Some w \<Rightarrow> [(w, edges ?g)]) @
          map (\<lambda>v. (v, edges ?g)) [nodes ?g ..< nodes (apply_designation (Controller (''E1'' @ [newline])) ?g)]
        else if idx ?g2 (ident_of (Start ''E1'')) = Some x \<or>
            (nodes ?g \<le> x \<and> x < nodes (apply_designation (Controller (''E1'' @ [newline])) ?g)) then
          [(sentinel_of (Start ''E1''), edges ?g)]
        else [])" by blast
  from E n l have n1: "nodes (apply_designation (Controller (''E1'' @ [newline])) ?g) = 5" by simp
  from a [rule_format, of 0] a [rule_format, of 4] n2 n1 n ed i
  have "graph (apply_designation (Start ''E1'') ?g2) ! 0 = graph ?g2 ! 0 @ [(4, 1)]"
    "graph (apply_designation (Start ''E1'') ?g2) ! 4 = graph ?g2 ! 4 @ [(0, 1)]"
    by (simp_all add: HEAD_def)
  with E ok e f s n l show ?thesis by simp
qed


section \<open>Starting-point lines and stored identifiers\<close>

text \<open>\<open>getline\<close> hands over each terminated line, and a last line that is not terminated.\<close>

lemma getlines_line: "newline \<notin> set line \<Longrightarrow> getlines cur (line @ [newline]) = [cur @ line]"
  by (induction line arbitrary: cur) auto

lemma getlines_last:
  "newline \<notin> set line \<Longrightarrow> cur @ line \<noteq> [] \<Longrightarrow> getlines cur line = [cur @ line]"
  by (induction line arbitrary: cur) auto

lemma getlines_terminated:
  "getlines cur (sp @ [newline] @ rest) = getlines cur (sp @ [newline]) @ getlines [] rest"
  by (induction sp arbitrary: cur) simp_all

lemma getlines_append:
  assumes "sp = [] \<or> last sp = newline"
  shows "getlines [] (sp @ rest) = getlines [] sp @ getlines [] rest"
proof (cases "sp = []")
  case True
  then show ?thesis by simp
next
  case False
  with assms have "sp = butlast sp @ [newline]" by (metis append_butlast_last_id)
  then obtain sp0 where sp: "sp = sp0 @ [newline]" ..
  from getlines_terminated [of "[]" sp0 rest] show ?thesis by (simp add: sp)
qed

text \<open>
  Each table is the converse of the list of names it indexes, and the substitute vertices
  of an exploded edge are in no table.
\<close>

definition keyed :: "gstate \<Rightarrow> bool" where
  "keyed g \<longleftrightarrow>
     (\<forall>k v. idx g k = Some v \<longrightarrow> name g ! v = k) \<and>
     (\<forall>k e. edgeidx g k = Some e \<longrightarrow> edgename g ! e = k) \<and>
     (\<forall>e vs u k. edgevtx g e = Some vs \<longrightarrow> u \<in> set vs \<longrightarrow> idx g k \<noteq> Some u)"

lemma keyedD:
  assumes "keyed g"
  shows "\<And>k v. idx g k = Some v \<Longrightarrow> name g ! v = k"
    "\<And>k e. edgeidx g k = Some e \<Longrightarrow> edgename g ! e = k"
    "\<And>e vs u k. edgevtx g e = Some vs \<Longrightarrow> u \<in> set vs \<Longrightarrow> idx g k \<noteq> Some u"
  using assms unfolding keyed_def by blast+

lemma keyed_init: "keyed init_graph"
  by (simp add: keyed_def init_graph_def)

lemma vertex_of_keyed:
  assumes ok: "tables_ok d g" and k: "keyed g"
  shows "keyed (snd (vertex_of s g))"
proof (cases "idx g s")
  case (Some v)
  with k show ?thesis by (simp add: vertex_of_def)
next
  case None
  note T = tables_okD [OF ok] and K = keyedD [OF k]
  have 1: "\<And>k v. ((idx g)(s \<mapsto> nodes g)) k = Some v \<Longrightarrow> (name g @ [s]) ! v = k"
  proof -
    fix k v assume a: "((idx g)(s \<mapsto> nodes g)) k = Some v"
    show "(name g @ [s]) ! v = k"
    proof (cases "k = s")
      case True
      with a T(1) show ?thesis by (simp add: nth_append)
    next
      case False
      with a have i: "idx g k = Some v" by simp
      from T(7) [OF i] T(1) K(1) [OF i] show ?thesis by (simp add: nth_append)
    qed
  qed
  have 3: "\<And>e vs u k. edgevtx g e = Some vs \<Longrightarrow> u \<in> set vs \<Longrightarrow> ((idx g)(s \<mapsto> nodes g)) k \<noteq> Some u"
  proof -
    fix e vs u k assume a: "edgevtx g e = Some vs" "u \<in> set vs"
    from T(10) [OF a] K(3) [OF a, of k] show "((idx g)(s \<mapsto> nodes g)) k \<noteq> Some u" by auto
  qed
  from None 1 3 K(2) show ?thesis by (simp add: vertex_of_def keyed_def)
qed

lemma edge_of_keyed:
  assumes ok: "tables_ok 0 g" and k: "keyed g"
  shows "keyed (snd (edge_of s g))"
proof (cases "edgeidx g s")
  case (Some v)
  with k show ?thesis by (simp add: edge_of_def)
next
  case None
  note T = tables_okD [OF ok] and K = keyedD [OF k]
  have 2: "\<And>k e. ((edgeidx g)(s \<mapsto> edges g)) k = Some e \<Longrightarrow> (edgename g @ [s]) ! e = k"
  proof -
    fix k e assume a: "((edgeidx g)(s \<mapsto> edges g)) k = Some e"
    show "(edgename g @ [s]) ! e = k"
    proof (cases "k = s")
      case True
      with a T(4) show ?thesis by (simp add: nth_append)
    next
      case False
      with a have i: "edgeidx g k = Some e" by simp
      from T(8) [OF i] T(4) K(2) [OF i] show ?thesis by (simp add: nth_append)
    qed
  qed
  from None 2 K(1,3) show ?thesis by (simp add: edge_of_def keyed_def)
qed

lemma keyed_lists [simp]:
  "keyed (g\<lparr>edgenodes := x\<rparr>) = keyed g" "keyed (g\<lparr>graph := y\<rparr>) = keyed g"
  "keyed (g\<lparr>controllers := c\<rparr>) = keyed g"
  by (simp_all add: keyed_def)

lemma add_row_keyed:
  assumes ok: "tables_ok 0 g" and k: "keyed g"
  shows "keyed (add_row e so t g)"
proof -
  obtain sv g1 where 1: "vertex_of so g = (sv, g1)" by fastforce
  obtain tv g2 where 2: "vertex_of t g1 = (tv, g2)" by fastforce
  obtain ev g3 where 3: "edge_of e g2 = (ev, g3)" by fastforce
  from vertex_of_ok [OF ok, of so] 1 have ok1: "tables_ok 0 g1" by simp
  from vertex_of_ok [OF ok1, of t] 2 have ok2: "tables_ok 0 g2" by simp
  from vertex_of_keyed [OF ok k, of so] 1 have k1: "keyed g1" by simp
  from vertex_of_keyed [OF ok1 k1, of t] 2 have k2: "keyed g2" by simp
  from edge_of_keyed [OF ok2 k2, of e] 3 have "keyed g3" by simp
  then show ?thesis by (simp add: add_row_def 1 2 3 Let_def)
qed

lemma add_dummy_keyed:
  assumes ok: "tables_ok 0 g" and k: "keyed g"
  shows "keyed (add_dummy g)"
proof -
  note T = tables_okD [OF ok] and K = keyedD [OF k]
  have "\<And>k e. edgeidx g k = Some e \<Longrightarrow> (edgename g @ [[]]) ! e = k"
    using T(8) T(4) K(2) by (simp add: nth_append)
  with K(1,3) show ?thesis by (simp add: keyed_def add_dummy_def)
qed

lemma designate_edgevtx:
  assumes ok: "tables_ok d g" and s: "s < 2" and v: "edgevtx (designate s ident g) e' = Some vs"
  shows "edgevtx g e' = Some vs \<or> (\<forall>u \<in> set vs. nodes g \<le> u)"
proof (cases "edgeidx g ident")
  case None
  with v show ?thesis by (simp add: designate_no_edge wired_fields)
next
  case (Some e)
  show ?thesis
  proof (cases "badedge g ! e")
    case False
    from designate_fresh(4) [OF ok s Some False] v show ?thesis
      by (cases "e' = e") auto
  next
    case True
    from v show ?thesis by (simp add: designate_again [OF ok Some True] wired_fields)
  qed
qed

lemma designate_keyed:
  assumes ok: "tables_ok d g" and s: "s < 2" and k: "keyed g"
  shows "keyed (designate s ident g)"
proof -
  note T = tables_okD [OF ok] and K = keyedD [OF k] and F = designate_frame [OF ok s, of ident]
  let ?g = "designate s ident g"
  have nm: "name ?g ! v = name g ! v" if "v < nodes g" for v
  proof -
    from that have "name ?g ! v = take (nodes g) (name ?g) ! v" by simp
    with F(8) show ?thesis by simp
  qed
  have 1: "\<And>k v. idx ?g k = Some v \<Longrightarrow> name ?g ! v = k"
    using T(7) K(1) nm by (simp add: F(3))
  have 2: "\<And>k e. edgeidx ?g k = Some e \<Longrightarrow> edgename ?g ! e = k"
    using K(2) by (simp add: F(2,5))
  have 3: "\<And>e vs u k. edgevtx ?g e = Some vs \<Longrightarrow> u \<in> set vs \<Longrightarrow> idx ?g k \<noteq> Some u"
  proof -
    fix e vs u k assume a: "edgevtx ?g e = Some vs" "u \<in> set vs"
    from designate_edgevtx [OF ok s a(1)] show "idx ?g k \<noteq> Some u"
    proof
      assume "edgevtx g e = Some vs"
      from K(3) [OF this a(2)] show ?thesis by (simp add: F(3))
    next
      assume "\<forall>u \<in> set vs. nodes g \<le> u"
      with a(2) have "nodes g \<le> u" by blast
      with T(7) [of k u] show ?thesis by (auto simp: F(3))
    qed
  qed
  from 1 2 3 show ?thesis unfolding keyed_def by blast
qed

lemma read_graph_keyed:
  assumes "read_graph text sp = Some g"
  shows "tables_ok 1 g \<and> keyed g"
proof (rule read_graph_invariant [where P = "\<lambda>g. tables_ok 0 g \<and> keyed g"
      and Q = "\<lambda>g. tables_ok 1 g \<and> keyed g", OF _ _ _ _ _ assms], goal_cases)
  case 1
  show ?case by (simp add: tables_ok_init keyed_init)
next
  case (2 e so t g)
  then show ?case by (simp add: add_row_ok add_row_keyed)
next
  case (3 g)
  with add_dummy_ok [of 0 g] show ?case by (simp add: add_dummy_keyed)
next
  case (4 c g)
  let ?g = "g\<lparr>controllers := controllers g + 1\<rparr>"
  from 4 have ok: "tables_ok 1 ?g" and k: "keyed ?g" by simp_all
  from designate_ok [OF ok, of TAIL c] designate_keyed [OF ok _ k, of TAIL c]
  show ?case by (simp add: add_controller_def)
next
  case (5 l g)
  then have ok: "tables_ok 1 g" and k: "keyed g" by simp_all
  from designate_ok [OF ok, of HEAD "start_key l"] designate_keyed [OF ok _ k, of HEAD "start_key l"]
  show ?case by (simp add: add_start_def)
qed


text \<open>How often an adjacency list holds an entry, after reduction 1 and after reduction 2.\<close>

lemma wire_count:
  assumes "x < length (graph g)"
  shows "count_list (graph (wire s w g) ! x) y =
     count_list (graph g ! x) y + (if x = s \<and> (w, edges g) = y then 1 else 0)
       + (if x = w \<and> (s, edges g) = y then 1 else 0)"
proof -
  let ?t = "emplace_at s (w, edges g) (graph g)"
  from assms have "x < length ?t" by simp
  then have "count_list (emplace_at w (s, edges g) ?t ! x) y =
      count_list (?t ! x) y + (if x = w \<and> (s, edges g) = y then 1 else 0)"
    by (rule count_emplace)
  moreover from assms have "count_list (?t ! x) y =
      count_list (graph g ! x) y + (if x = s \<and> (w, edges g) = y then 1 else 0)"
    by (rule count_emplace)
  ultimately show ?thesis by (simp add: wire_def)
qed

lemma fold_wire_count:
  assumes "x < length (graph g)" "v \<notin> set vs" "v \<noteq> s"
  shows "count_list (graph (fold (wire s) vs g) ! x) (v, c) = count_list (graph g ! x) (v, c)"
  using assms
proof (induction vs arbitrary: g)
  case Nil
  then show ?case by simp
next
  case (Cons w vs)
  from Cons.prems have "x < length (graph (wire s w g))" "v \<notin> set vs" by (simp_all add: wire_def)
  from Cons.prems have "w \<noteq> v" by auto
  with Cons.IH [OF \<open>x < length (graph (wire s w g))\<close> \<open>v \<notin> set vs\<close> Cons.prems(3)]
    wire_count [OF Cons.prems(1), of s w "(v, c)"] Cons.prems(3)
  show ?case by simp
qed

lemma explode_segment_count:
  assumes "length (graph g) = nodes g" "x < nodes g" "v < nodes g"
  shows "count_list (graph (explode_segment s ident e p g) ! x) (v, c) = count_list (graph g ! x) (v, c)"
  using assms by (simp add: explode_segment_graph count_emplace nth_append)

lemma length_graph_explode:
  "length (graph (explode_segment s ident e p g)) = Suc (length (graph g))"
  by (simp add: explode_segment_graph)

lemma fold_explode_count:
  assumes "length (graph g) = nodes g" "x < nodes g" "v < nodes g"
  shows "count_list (graph (fold (explode_segment s ident e) ps g) ! x) (v, c)
     = count_list (graph g ! x) (v, c)"
  using assms
proof (induction ps arbitrary: g)
  case Nil
  then show ?case by simp
next
  case (Cons p ps)
  let ?g = "explode_segment s ident e p g"
  from Cons.prems have "length (graph ?g) = nodes ?g" "x < nodes ?g" "v < nodes ?g"
    by (simp_all add: length_graph_explode)
  from Cons.IH [OF this] explode_segment_count [OF Cons.prems] show ?case by simp
qed

lemma designate_fresh_eq:
  assumes ok: "tables_ok d g" and e: "edgeidx g ident = Some e" and fresh: "\<not> badedge g ! e"
  shows "designate s ident g =
     fold (explode_segment s ident e) (edgenodes g ! e)
       ((case idx g ident of None \<Rightarrow> g | Some v \<Rightarrow> wire s v g)
          \<lparr>badedge := (badedge g)[e := True], edgevtx := (edgevtx g)(e \<mapsto> [])\<rparr>)"
proof -
  from ok e have el: "e < edges g" by (rule tables_okD(8))
  with fresh tables_okD(11) [OF ok, of e] have none: "edgevtx g e = None" by auto
  with e fresh show ?thesis by (simp add: designate_def Let_def wired_fields)
qed

text \<open>
  A line wires \<open>HEAD\<close> to the vertex stored under \<open>k\<close> exactly when the line with its
  terminator is \<open>k\<close>.
\<close>

lemma designate_head_count:
  assumes ok: "tables_ok d g" and kd: "keyed g" and k: "idx g k = Some v"
  shows "count_list (graph (designate HEAD ident g) ! HEAD) (v, edges g) =
     count_list (graph g ! HEAD) (v, edges g) + (if ident = k then 1 else 0)"
proof -
  note T = tables_okD [OF ok] and K = keyedD [OF kd]
  let ?g1 = "case idx g ident of None \<Rightarrow> g | Some w \<Rightarrow> wire HEAD w g"
  from T(7) [OF k] have v: "2 \<le> v" "v < nodes g" by simp_all
  from T(2,3) have h: "HEAD < length (graph g)" by (simp add: HEAD_def)
  have c1: "count_list (graph ?g1 ! HEAD) (v, edges g) =
     count_list (graph g ! HEAD) (v, edges g) + (if ident = k then 1 else 0)"
  proof (cases "idx g ident")
    case None
    with k have "ident \<noteq> k" by auto
    with None show ?thesis by simp
  next
    case (Some w)
    from T(7) [OF Some] have w: "HEAD \<noteq> w" by (simp add: HEAD_def)
    have "w = v \<longleftrightarrow> ident = k"
    proof
      assume "w = v"
      with K(1) [OF Some] K(1) [OF k] show "ident = k" by simp
    next
      assume "ident = k"
      with Some k show "w = v" by simp
    qed
    with wire_count [OF h, of HEAD w "(v, edges g)"] w Some show ?thesis by simp
  qed
  have l1: "length (graph ?g1) = nodes g" "nodes ?g1 = nodes g"
    using T(2) by (simp_all add: wired_fields split: option.split)
  show ?thesis
  proof (cases "edgeidx g ident")
    case None
    with c1 show ?thesis by (simp add: designate_no_edge)
  next
    case (Some e)
    show ?thesis
    proof (cases "badedge g ! e")
      case False
      let ?g2 = "?g1\<lparr>badedge := (badedge g)[e := True], edgevtx := (edgevtx g)(e \<mapsto> [])\<rparr>"
      from l1 have "length (graph ?g2) = nodes ?g2" by simp
      moreover from T(3) l1 have "HEAD < nodes ?g2" by (simp add: HEAD_def)
      moreover from v l1 have "v < nodes ?g2" by simp
      ultimately have "count_list (graph (fold (explode_segment HEAD ident e) (edgenodes g ! e) ?g2) ! HEAD)
          (v, edges g) = count_list (graph ?g2 ! HEAD) (v, edges g)"
        by (rule fold_explode_count)
      with c1 show ?thesis by (simp add: designate_fresh_eq [OF ok Some False])
    next
      case True
      from ok Some have "e < edges g" by (rule tables_okD(8))
      with True T(11) [of e] obtain vs where vs: "edgevtx g e = Some vs" by auto
      from K(3) [OF vs, of v k] k have nin: "v \<notin> set vs" by auto
      from v have ne: "v \<noteq> HEAD" by (simp add: HEAD_def)
      from h l1 T(2) have "HEAD < length (graph ?g1)" by simp
      from fold_wire_count [OF this nin ne] c1 vs show ?thesis
        by (simp add: designate_again [OF ok Some True])
    qed
  qed
qed

text \<open>
  A line deletes (and explodes) the edge stored under \<open>k\<close> exactly when the line with its
  terminator is \<open>k\<close>.
\<close>

lemma designate_badedge:
  assumes ok: "tables_ok d g" and kd: "keyed g" and k: "edgeidx g k = Some e"
    and fresh: "\<not> badedge g ! e" and s: "s < 2"
  shows "badedge (designate s ident g) ! e \<longleftrightarrow> ident = k"
proof (cases "edgeidx g ident")
  case None
  with k have "ident \<noteq> k" by auto
  with None fresh show ?thesis by (simp add: designate_no_edge wired_fields)
next
  case (Some e')
  note T = tables_okD [OF ok] and K = keyedD [OF kd]
  have same: "e' = e \<longleftrightarrow> ident = k"
  proof
    assume "e' = e"
    with K(2) [OF Some] K(2) [OF k] show "ident = k" by simp
  next
    assume "ident = k"
    with Some k show "e' = e" by simp
  qed
  from T(8) [OF k] T(5) have el: "e < length (badedge g)" by simp
  show ?thesis
  proof (cases "badedge g ! e'")
    case False
    have b: "badedge (designate s ident g) = (badedge g)[e' := True]"
      by (rule designate_fresh(5) [OF ok s Some False])
    show ?thesis
    proof (cases "e' = e")
      case True
      with el have "(badedge g)[e' := True] ! e" by simp
      with True same show ?thesis unfolding b by blast
    next
      case ne: False
      then have "(badedge g)[e' := True] ! e = badedge g ! e" by simp
      with ne same fresh show ?thesis unfolding b by blast
    qed
  next
    case True
    with fresh have ne: "e' \<noteq> e" by auto
    have "badedge (designate s ident g) = badedge g"
      by (simp add: designate_again [OF ok Some True] wired_fields)
    with ne same fresh show ?thesis by simp
  qed
qed

text \<open>
  Claim C8.  Outside a string, \<open>extract_string\<close> reads up to the next double quote, copies
  every character up to the following double quote unchanged (a backslash is a character
  like any other) and appends one line feed; it stops just behind the closing quote.
  \<open>read_graph\<close> handles a further line of the starting-points file, terminated or last, by
  \<open>add_start\<close>, which looks the line up with a line feed appended: \<open>HEAD\<close> gains an entry for
  the vertex stored under the extracted text exactly when the line equals the text between
  the quotes, and an edge stored under it, not deleted before, is deleted exactly then.
\<close>

theorem extract_string_verbatim:
  assumes "\<not> instring s" and "input s = pre @ dquote # body @ dquote # rest"
    and "dquote \<notin> set pre" and "dquote \<notin> set body"
    and run: "read_graph text sp = Some g" and sp: "sp = [] \<or> last sp = newline"
    and line: "newline \<notin> set line"
  shows "\<exists>s'. extract_string s = Some (body @ [newline], s') \<and> input s' = rest \<and> \<not> instring s' \<and>
      read_graph text (sp @ line @ [newline]) = Some (add_start line g) \<and>
      (line \<noteq> [] \<longrightarrow> read_graph text (sp @ line) = Some (add_start line g)) \<and>
      (\<forall>v. idx g (body @ [newline]) = Some v \<longrightarrow>
         count_list (graph (add_start line g) ! HEAD) (v, edges g) =
         count_list (graph g ! HEAD) (v, edges g) + (if line = body then 1 else 0)) \<and>
      (\<forall>e. edgeidx g (body @ [newline]) = Some e \<longrightarrow> \<not> badedge g ! e \<longrightarrow>
         (badedge (add_start line g) ! e \<longleftrightarrow> line = body))"
proof -
  from skip_to_string_finds [OF assms(1,2,3)] obtain s1 where
    s1: "skip_to_string s = Some s1" "input s1 = body @ dquote # rest" "instring s1" by blast
  from copy_string_copies [OF s1(3) s1(2) assms(4), of "[]"] obtain s' where
    "copy_string [] s1 = Some (body, s')" "input s' = rest" "\<not> instring s'" by auto
  with s1 have ex: "extract_string s = Some (body @ [newline], s') \<and> input s' = rest \<and> \<not> instring s'"
    by (simp add: extract_string_def)
  from run obtain g0 where j: "read_json text = Some g0"
    and g: "g = fold add_start (getlines [] sp) g0"
    by (auto simp: read_graph_def bind_eq_Some_conv)
  have 1: "read_graph text (sp @ line @ [newline]) = Some (add_start line g)"
    using getlines_append [OF sp, of "line @ [newline]"] getlines_line [OF line, of "[]"]
    by (simp add: read_graph_def j g)
  have 2: "read_graph text (sp @ line) = Some (add_start line g)" if "line \<noteq> []"
    using getlines_append [OF sp, of line] getlines_last [OF line, of "[]"] that
    by (simp add: read_graph_def j g)
  from read_graph_keyed [OF run] have ok: "tables_ok 1 g" and kd: "keyed g" by simp_all
  have 3: "count_list (graph (add_start line g) ! HEAD) (v, edges g) =
      count_list (graph g ! HEAD) (v, edges g) + (if line = body then 1 else 0)"
    if "idx g (body @ [newline]) = Some v" for v
    using designate_head_count [OF ok kd that, of "start_key line"]
    by (simp add: add_start_def start_key_def)
  have 4: "badedge (add_start line g) ! e \<longleftrightarrow> line = body"
    if "edgeidx g (body @ [newline]) = Some e" "\<not> badedge g ! e" for e
    using designate_badedge [OF ok kd that, of HEAD "start_key line"]
    by (simp add: add_start_def start_key_def)
  from ex 1 2 3 4 show ?thesis by blast
qed

theorem extract_string_verbatim_witness:
  "(\<exists>s'. extract_string (open_file (''x: '' @ dquote # (''a'' @ backslash # ''n'') @ dquote # '', y''))
          = Some ((''a'' @ backslash # ''n'') @ [newline], s') \<and> input s' = '', y'' \<and> \<not> instring s') \<and>
   (\<exists>s'. extract_string (open_file ('':'' @ dquote # ''A'' @ dquote # '',''))
          = Some (''A'' @ [newline], s') \<and> input s' = '','' \<and> \<not> instring s') \<and>
   read_graph json1 [] = Some (the (read_graph json1 [])) \<and>
   read_graph json1 (''A'' @ [newline]) = Some (add_start ''A'' (the (read_graph json1 []))) \<and>
   read_graph json1 ''A'' = Some (add_start ''A'' (the (read_graph json1 []))) \<and>
   idx (the (read_graph json1 [])) (''A'' @ [newline]) = Some 2 \<and>
   count_list (graph (add_start ''A'' (the (read_graph json1 []))) ! HEAD) (2, 1) = 1 \<and>
   count_list (graph (add_start ''B'' (the (read_graph json1 []))) ! HEAD) (2, 1) = 0 \<and>
   edgeidx (the (read_graph json1 [])) (''E1'' @ [newline]) = Some 0 \<and>
   \<not> badedge (the (read_graph json1 [])) ! 0 \<and>
   badedge (add_start ''E1'' (the (read_graph json1 []))) ! 0"
proof -
  let ?g = "the (read_graph json1 [])"
  have i: "idx ?g (''A'' @ [newline]) = Some 2" and ed: "edges ?g = 1"
    and c0: "count_list (graph ?g ! HEAD) (2, 1) = 0"
    and e: "edgeidx ?g (''E1'' @ [newline]) = Some 0" and f: "\<not> badedge ?g ! 0"
    by code_simp+
  have d: "dquote \<notin> set ''x: ''" "dquote \<notin> set (''a'' @ backslash # ''n'')"
    "dquote \<notin> set '':''" "dquote \<notin> set ''A''" "dquote \<notin> set ''E1''"
    and n: "newline \<notin> set ''A''" "newline \<notin> set ''B''" "newline \<notin> set ''E1''"
    by (simp_all add: dquote_def backslash_def newline_def)
  have p1: "\<not> instring (open_file x)" for x by (simp add: open_file_def)
  have p2: "input (open_file x) = x" for x by (simp add: open_file_def)
  have sp: "([] :: string) = [] \<or> last ([] :: string) = newline" by simp
  note A = extract_string_verbatim [OF p1
      p2 [of "''x: '' @ dquote # (''a'' @ backslash # ''n'') @ dquote # '', y''"]
      d(1,2) read_graph_json1_nostart sp n(1)]
  note B = extract_string_verbatim [OF p1 p2 [of "'':'' @ dquote # ''A'' @ dquote # '',''"]
      d(3,4) read_graph_json1_nostart sp n(1)]
  note C = extract_string_verbatim [OF p1 p2 [of "'':'' @ dquote # ''A'' @ dquote # '',''"]
      d(3,4) read_graph_json1_nostart sp n(2)]
  note D = extract_string_verbatim [OF p1 p2 [of "'':'' @ dquote # ''E1'' @ dquote # '',''"]
      d(3,5) read_graph_json1_nostart sp n(3)]
  from A have a: "\<exists>s'. extract_string (open_file (''x: '' @ dquote # (''a'' @ backslash # ''n'') @ dquote # '', y''))
          = Some ((''a'' @ backslash # ''n'') @ [newline], s') \<and> input s' = '', y'' \<and> \<not> instring s'"
    by blast
  from B have b1: "\<exists>s'. extract_string (open_file ('':'' @ dquote # ''A'' @ dquote # '',''))
          = Some (''A'' @ [newline], s') \<and> input s' = '','' \<and> \<not> instring s'"
    by blast
  from B have b2: "read_graph json1 (''A'' @ [newline]) = Some (add_start ''A'' ?g)"
    by (elim exE conjE) simp
  from B have b3: "read_graph json1 ''A'' = Some (add_start ''A'' ?g)"
    by (elim exE conjE) simp
  from B have "\<forall>v. idx ?g (''A'' @ [newline]) = Some v \<longrightarrow>
         count_list (graph (add_start ''A'' ?g) ! HEAD) (v, edges ?g) =
         count_list (graph ?g ! HEAD) (v, edges ?g) + (if ''A'' = ''A'' then 1 else 0)" by blast
  with i ed c0 have b4: "count_list (graph (add_start ''A'' ?g) ! HEAD) (2, 1) = 1" by simp
  from C have "\<forall>v. idx ?g (''A'' @ [newline]) = Some v \<longrightarrow>
         count_list (graph (add_start ''B'' ?g) ! HEAD) (v, edges ?g) =
         count_list (graph ?g ! HEAD) (v, edges ?g) + (if ''B'' = ''A'' then 1 else 0)" by blast
  with i ed c0 have c: "count_list (graph (add_start ''B'' ?g) ! HEAD) (2, 1) = 0" by simp
  from D have "\<forall>e. edgeidx ?g (''E1'' @ [newline]) = Some e \<longrightarrow> \<not> badedge ?g ! e \<longrightarrow>
         (badedge (add_start ''E1'' ?g) ! e \<longleftrightarrow> ''E1'' = ''E1'')" by blast
  with e f have dd: "badedge (add_start ''E1'' ?g) ! 0" by simp
  from a b1 read_graph_json1_nostart b2 b3 i b4 c e f dd show ?thesis by (intro conjI)
qed


section \<open>The order-independent cursor (json.h)\<close>

text \<open>
  \<open>scan_field\<close>, first loop:
  \<open>while (bracelevel == braces) { readc(file); if (bracketlevel > brackets) return false; }\<close>
\<close>

function enter_field_loop :: "uintf \<Rightarrow> uintf \<Rightarrow> scanner \<Rightarrow> (bool \<times> scanner) option" where
  "enter_field_loop bracelevel bracketlevel s =
     (if bracelevel = braces s then
        (if bracketlevel > brackets (snd (readc s)) then Some (False, snd (readc s))
         else if input s = [] then None
         else enter_field_loop bracelevel bracketlevel (snd (readc s)))
      else Some (True, s))"
  by pat_completeness auto
termination
  by (relation "measure (\<lambda>(bracelevel, bracketlevel, s). length (input s))") auto

declare enter_field_loop.simps [simp del]

text \<open>
  \<open>scan_field\<close>, the \<open>for\<close> loop over the keys for one character \<open>c\<close>.  The
  handler \<open>action\<close> gets the index of the key, the variables it captured by reference
  (of any type \<open>'a\<close>) and the scanner, which it may move.  \<open>keys[i][pos[i]]\<close> is the
  terminating zero when \<open>pos[i]\<close> is the length of the key; one position further lies
  outside the array (\<open>None\<close>).
\<close>

definition nul :: char where
  "nul = CHR 0x00"

fun match_keys ::
  "(nat \<Rightarrow> 'a \<Rightarrow> scanner \<Rightarrow> ('a \<times> scanner) option) \<Rightarrow> char \<Rightarrow> nat \<Rightarrow> string list \<Rightarrow> nat list
     \<Rightarrow> 'a \<Rightarrow> scanner \<Rightarrow> (nat list \<times> 'a \<times> scanner) option" where
  "match_keys action c i (k # ks) (p # ps) a s =
     (if p < length k \<and> c = k ! p then
        (case (if Suc p = length k then action i a s else Some (a, s)) of
           None \<Rightarrow> None
         | Some (a1, s1) \<Rightarrow>
             (case match_keys action c (Suc i) ks ps a1 s1 of
                None \<Rightarrow> None
              | Some (ps', r) \<Rightarrow> Some (Suc p # ps', r)))
      else if length k \<le> p \<and> (length k < p \<or> c = nul) then None
      else
        (case match_keys action c (Suc i) ks ps a s of
           None \<Rightarrow> None
         | Some (ps', r) \<Rightarrow> Some (0 # ps', r)))"
| "match_keys action c i ks ps a s = Some ([], a, s)"

text \<open>
  \<open>scan_field\<close>, second loop.  The handler may consume input or not return, so the
  loop is a partial function: not returning is \<open>None\<close>.
\<close>

partial_function (option) field_loop ::
  "(nat \<Rightarrow> 'a \<Rightarrow> scanner \<Rightarrow> ('a \<times> scanner) option) \<Rightarrow> string list \<Rightarrow> uintf \<Rightarrow> uintf
     \<Rightarrow> nat list \<Rightarrow> 'a \<Rightarrow> scanner \<Rightarrow> ('a \<times> scanner) option" where
  "field_loop action keys bracelevel bracketlevel pos a s =
     (if bracelevel < braces s then
        (case readc s of
           (c, s1) \<Rightarrow>
             if bracelevel + 1 < braces s1 \<or> bracketlevel < brackets s1 then
               field_loop action keys bracelevel bracketlevel pos a s1
             else
               (case match_keys action c 0 keys pos a s1 of
                  None \<Rightarrow> None
                | Some (pos', a', s2) \<Rightarrow>
                    field_loop action keys bracelevel bracketlevel pos' a' s2))
      else Some (a, s))"

declare field_loop.simps [code]

definition scan_field ::
  "(nat \<Rightarrow> 'a \<Rightarrow> scanner \<Rightarrow> ('a \<times> scanner) option) \<Rightarrow> string list \<Rightarrow> 'a \<Rightarrow> scanner
     \<Rightarrow> (bool \<times> 'a \<times> scanner) option" where
  "scan_field action keys a s =
     (case enter_field_loop (braces s) (brackets s) s of
        None \<Rightarrow> None
      | Some (entered, s1) \<Rightarrow>
          if \<not> entered then Some (False, a, s1)
          else (case field_loop action keys (braces s) (brackets s)
                       (replicate (length keys) 0) a s1 of
                  None \<Rightarrow> None
                | Some (a', s2) \<Rightarrow> Some (True, a', s2)))"













text \<open>
  A handler that only records the index it is called with and the number of characters
  still unread at that moment.
\<close>

definition record_call :: "nat \<Rightarrow> (nat \<times> nat) list \<Rightarrow> scanner \<Rightarrow> ((nat \<times> nat) list \<times> scanner) option" where
  "record_call i log s = Some (log @ [(i, length (input s))], s)"


definition row_missing :: string where
  "row_missing = '' {'' @ quoted ''viaGlobalId'' @ '':'' @ quoted ''E1'' @ '','' @
     quoted ''fromGlobalId'' @ '':'' @ quoted ''A'' @ ''},{}]''"

lemma track_plain:
  "\<not> instring s \<Longrightarrow> c \<notin> {dquote, lbrace, rbrace, lbracket, rbracket} \<Longrightarrow> track c s = s"
  by (simp add: track_def)

lemma track_lbrace:
  "\<not> instring s \<Longrightarrow> track lbrace s = s\<lparr>braces := braces s + 1\<rparr>"
  by (simp add: track_def lbrace_def dquote_def)

lemma enter_field_loop_False:
  "enter_field_loop bl brl s = Some (False, s1) \<Longrightarrow> brackets s1 < brl"
proof (induction bl brl s rule: enter_field_loop.induct)
  case (1 bl brl s)
  show ?case
  proof (cases "bl = braces s")
    case False
    with "1.prems" show ?thesis by (subst (asm) enter_field_loop.simps) simp
  next
    case True
    show ?thesis
    proof (cases "brl > brackets (snd (readc s))")
      case gt: True
      with True "1.prems" show ?thesis by (subst (asm) enter_field_loop.simps) auto
    next
      case ngt: False
      with True "1.prems" have ne: "input s \<noteq> []"
        by (subst (asm) enter_field_loop.simps) (auto split: if_splits)
      with True ngt "1.prems" have "enter_field_loop bl brl (snd (readc s)) = Some (False, s1)"
        by (subst (asm) enter_field_loop.simps) simp
      with "1.IH" [OF True ngt ne] show ?thesis .
    qed
  qed
qed

lemma enter_field_loop_opens:
  assumes "\<not> instring s" "input s = pre @ lbrace # rest"
    "set pre \<inter> {dquote, lbrace, rbrace, lbracket, rbracket} = {}"
  shows "enter_field_loop (braces s) (brackets s) s
           = Some (True, s\<lparr>input := rest, braces := braces s + 1\<rparr>)"
  using assms
proof (induction pre arbitrary: s)
  case Nil
  then have r: "readc s = (lbrace, s\<lparr>input := rest, braces := braces s + 1\<rparr>)"
    by (simp add: readc_Cons track_lbrace)
  have "enter_field_loop (braces s) (brackets s) (s\<lparr>input := rest, braces := braces s + 1\<rparr>)
      = Some (True, s\<lparr>input := rest, braces := braces s + 1\<rparr>)"
    by (subst enter_field_loop.simps) simp
  with Nil r show ?case
    by (subst enter_field_loop.simps) simp
next
  case (Cons c pre)
  let ?s = "s\<lparr>input := pre @ lbrace # rest\<rparr>"
  from Cons.prems have c: "c \<notin> {dquote, lbrace, rbrace, lbracket, rbracket}" by auto
  with Cons.prems have r: "readc s = (c, ?s)"
    by (simp add: readc_Cons track_plain)
  from Cons.prems have "\<not> instring ?s" "input ?s = pre @ lbrace # rest"
    "set pre \<inter> {dquote, lbrace, rbrace, lbracket, rbracket} = {}" by auto
  from Cons.IH [OF this] r Cons.prems(2) show ?case
    by (subst enter_field_loop.simps) simp
qed

lemma scan_field_cases:
  assumes "scan_field action keys a s = Some (found, a', s')"
  shows "(found \<and> (\<exists>s1. enter_field_loop (braces s) (brackets s) s = Some (True, s1) \<and>
            field_loop action keys (braces s) (brackets s) (replicate (length keys) 0) a s1
              = Some (a', s')))
       \<or> (\<not> found \<and> a' = a \<and> brackets s' < brackets s \<and>
            enter_field_loop (braces s) (brackets s) s = Some (False, s'))"
  using assms enter_field_loop_False [of "braces s" "brackets s" s s']
  by (auto simp: scan_field_def split: option.splits if_splits)

definition json_missing :: string where
  "json_missing = ''{'' @ quoted ''rows'' @ '':[{'' @ quoted ''viaGlobalId'' @ '':'' @ quoted ''E1''
     @ '','' @ quoted ''fromGlobalId'' @ '':'' @ quoted ''A'' @ ''},{'' @ quoted ''viaGlobalId''
     @ '':'' @ quoted ''E2'' @ '','' @ quoted ''fromGlobalId'' @ '':'' @ quoted ''B'' @ '',''
     @ quoted ''toGlobalId'' @ '':'' @ quoted ''C'' @ ''}],'' @ quoted ''controllers'' @ '':[]}''"

lemma read_graph_missing_key_default:
  "map_option name (read_graph json_missing [])
     = Some [[], [], ''A'' @ [newline], ''viaGlobalId'' @ [newline]]
   \<and> map_option edgename (read_graph json_missing []) = Some [''E1'' @ [newline], []]
   \<and> map_option graph (read_graph json_missing []) = Some [[], [], [(3, 0)], [(2, 0)]]"
  by code_simp

section \<open>What the field scan reports\<close>

definition structural :: "char set" where
  "structural = {lbrace, rbrace, lbracket, rbracket}"

definition scanned :: "string \<Rightarrow> scanner \<Rightarrow> scanner" where
  "scanned cs s = fold track cs s"

definition skipped :: "uintf \<Rightarrow> uintf \<Rightarrow> scanner \<Rightarrow> bool" where
  "skipped bl brl s \<longleftrightarrow> bl + 1 < braces s \<or> brl < brackets s"

definition advance :: "char \<Rightarrow> string \<Rightarrow> nat \<Rightarrow> nat" where
  "advance c k p = (if p < length k \<and> c = k ! p then Suc p else 0)"

definition fires :: "char \<Rightarrow> string \<Rightarrow> nat \<Rightarrow> bool" where
  "fires c k p \<longleftrightarrow> p < length k \<and> c = k ! p \<and> Suc p = length k"

lemma match_keys_record:
  assumes "match_keys record_call c i ks ps log s = Some (ps', log', s')"
    and "length ps = length ks"
  shows "s' = s \<and> length ps' = length ks \<and>
    (\<forall>j < length ks. ps ! j \<le> length (ks ! j) \<and> ps' ! j = advance c (ks ! j) (ps ! j)) \<and>
    log' = log @ map (\<lambda>j. (i + j, length (input s))) (filter (\<lambda>j. fires c (ks ! j) (ps ! j)) [0 ..< length ks])"
  using assms
proof (induction ks arbitrary: ps i log ps' log')
  case Nil
  then show ?case by simp
next
  case (Cons k ks)
  from Cons.prems(2) obtain p qs where ps: "ps = p # qs" and len: "length qs = length ks"
    by (cases ps) auto
  let ?log1 = "if fires c k p then log @ [(i, length (input s))] else log"
  have step: "match_keys record_call c i (k # ks) (p # qs) log s =
      (if p \<le> length k \<and> \<not> (p = length k \<and> c = nul) then
         map_option (\<lambda>(qs', r). (advance c k p # qs', r))
           (match_keys record_call c (Suc i) ks qs ?log1 s)
       else None)"
    by (auto simp: fires_def advance_def record_call_def split: option.splits)
  from Cons.prems(1) have ple: "p \<le> length k"
    unfolding ps step by (auto split: if_splits)
  from Cons.prems(1) obtain qs' where
    rec: "match_keys record_call c (Suc i) ks qs ?log1 s = Some (qs', log', s')"
    and ps': "ps' = advance c k p # qs'"
    unfolding ps step by (auto split: if_splits)
  note IH = Cons.IH [OF rec len]
  have upt: "[0 ..< length (k # ks)] = 0 # map Suc [0 ..< length ks]"
    by (simp add: upt_conv_Cons map_Suc_upt del: upt_Suc)
  have flt: "filter (\<lambda>j. fires c ((k # ks) ! j) ((p # qs) ! j)) (map Suc [0 ..< length ks])
      = map Suc (filter (\<lambda>j. fires c (ks ! j) (qs ! j)) [0 ..< length ks])"
    by (simp add: filter_map comp_def)
  have log: "log' = log @ map (\<lambda>j. (i + j, length (input s)))
      (filter (\<lambda>j. fires c ((k # ks) ! j) (ps ! j)) [0 ..< length (k # ks)])"
    using IH unfolding upt by (simp add: flt ps comp_def del: upt_Suc)
  have "\<forall>j < length (k # ks). ps ! j \<le> length ((k # ks) ! j) \<and>
      ps' ! j = advance c ((k # ks) ! j) (ps ! j)"
    using IH ple by (auto simp: ps ps' nth_Cons split: nat.splits)
  with IH log show ?case by (simp add: ps')
qed

lemma word_depth_one:
  fixes b bl :: uintf
  shows "bl < b \<Longrightarrow> \<not> bl + 1 < b \<Longrightarrow> b = bl + 1"
  by unat_arith

lemma scanned_Nil [simp]: "scanned [] s = s"
  by (simp add: scanned_def)

lemma scanned_snoc: "scanned (cs @ [c]) s = track c (scanned cs s)"
  by (simp add: scanned_def)

lemma scanned_append: "scanned (cs @ ds) s = scanned ds (scanned cs s)"
  by (simp add: scanned_def)

lemma input_scanned [simp]: "input (scanned cs s) = input s"
  by (induction cs arbitrary: s) (simp_all add: scanned_def)

lemma track_input_update: "track c (s\<lparr>input := x\<rparr>) = (track c s)\<lparr>input := x\<rparr>"
  by (simp add: track_def)

lemma track_counters:
  "c \<notin> structural \<Longrightarrow> braces (track c s) = braces s \<and> brackets (track c s) = brackets s"
  by (simp add: track_def structural_def)

lemma scanned_counters:
  "set cs \<inter> structural = {} \<Longrightarrow>
   braces (scanned cs s) = braces s \<and> brackets (scanned cs s) = brackets s"
proof (induction cs arbitrary: s)
  case Nil
  then show ?case by simp
next
  case (Cons c cs)
  then have "c \<notin> structural" "set cs \<inter> structural = {}" by auto
  from Cons.IH [OF this(2), of "track c s"] track_counters [OF this(1), of s]
  show ?case by (simp add: scanned_def)
qed

lemma skipped_change:
  assumes "skipped bl brl (track c s) \<noteq> skipped bl brl s"
  shows "c \<in> structural"
proof (rule ccontr)
  assume "c \<notin> structural"
  from track_counters [OF this, of s] have "skipped bl brl (track c s) = skipped bl brl s"
    by (simp add: skipped_def)
  with assms show False by simp
qed

lemma eof_not_tracked: "track eof_char s = s"
  by (simp add: track_def eof_char_def dquote_def lbrace_def rbrace_def lbracket_def rbracket_def)


lemma prefix_of_occurrence:
  assumes "r @ rest = pre @ k @ post" "length pre \<le> length r" "length r \<le> length pre + length k"
  shows "r = pre @ take (length r - length pre) k"
proof -
  have "r = take (length r) (r @ rest)" by simp
  also have "\<dots> = take (length r) (pre @ k @ post)" by (simp only: assms(1))
  also have "\<dots> = pre @ take (length r - length pre) k" using assms(2,3) by simp
  finally show ?thesis .
qed

definition depth_one :: "string list \<Rightarrow> uintf \<Rightarrow> uintf \<Rightarrow> scanner \<Rightarrow> nat \<Rightarrow> string \<Rightarrow> nat \<Rightarrow> bool" where
  "depth_one keys bl brl s1 i pre m \<longleftrightarrow>
     (\<forall>j. 0 < j \<and> j \<le> m \<longrightarrow>
        braces (scanned (pre @ take j (keys ! i)) s1) = bl + 1 \<and>
        brackets (scanned (pre @ take j (keys ! i)) s1) \<le> brl)"

definition eligible :: "string list \<Rightarrow> uintf \<Rightarrow> uintf \<Rightarrow> scanner \<Rightarrow> nat \<Rightarrow> string \<Rightarrow> bool" where
  "eligible keys bl brl s1 i pre \<longleftrightarrow>
     \<not> skipped bl brl (scanned pre s1) \<and> (pre = [] \<or> last pre \<notin> set (keys ! i))"

definition pos_ok ::
  "string list \<Rightarrow> uintf \<Rightarrow> uintf \<Rightarrow> scanner \<Rightarrow> string \<Rightarrow> nat list \<Rightarrow> scanner \<Rightarrow> bool" where
  "pos_ok keys bl brl s1 read pos s \<longleftrightarrow>
     (\<forall>i < length keys. pos ! i \<le> length (keys ! i) \<and>
        (0 < pos ! i \<longrightarrow> (\<exists>pre sk. read = pre @ take (pos ! i) (keys ! i) @ sk \<and>
            (sk \<noteq> [] \<longrightarrow> skipped bl brl s) \<and> depth_one keys bl brl s1 i pre (pos ! i))))"

definition log_ok ::
  "string list \<Rightarrow> uintf \<Rightarrow> uintf \<Rightarrow> scanner \<Rightarrow> (nat \<times> nat) list \<Rightarrow> nat \<Rightarrow> bool" where
  "log_ok keys bl brl s1 log n \<longleftrightarrow>
     (\<forall>i r. (i, r) \<in> set log \<longrightarrow> i < length keys \<and> n \<le> r \<and>
        (\<exists>pre post. input s1 = pre @ keys ! i @ post \<and> length post = r \<and>
            depth_one keys bl brl s1 i pre (length (keys ! i))))"

definition complete_ok ::
  "string list \<Rightarrow> uintf \<Rightarrow> uintf \<Rightarrow> scanner \<Rightarrow> string \<Rightarrow> nat list \<Rightarrow> (nat \<times> nat) list \<Rightarrow> bool" where
  "complete_ok keys bl brl s1 read pos log \<longleftrightarrow>
     (\<forall>i pre post. i < length keys \<longrightarrow> input s1 = pre @ keys ! i @ post \<longrightarrow>
        eligible keys bl brl s1 i pre \<longrightarrow>
        (length pre + length (keys ! i) \<le> length read \<longrightarrow> (i, length post) \<in> set log) \<and>
        (length pre \<le> length read \<and> length read < length pre + length (keys ! i) \<longrightarrow>
           pos ! i = length read - length pre))"

definition field_inv ::
  "string list \<Rightarrow> uintf \<Rightarrow> uintf \<Rightarrow> scanner \<Rightarrow> string \<Rightarrow> nat list \<Rightarrow> (nat \<times> nat) list \<Rightarrow> scanner \<Rightarrow> bool" where
  "field_inv keys bl brl s1 read pos log s \<longleftrightarrow>
     input s1 = read @ input s \<and> s = (scanned read s1)\<lparr>input := input s\<rparr> \<and>
     length pos = length keys \<and> pos_ok keys bl brl s1 read pos s \<and>
     log_ok keys bl brl s1 log (length (input s)) \<and> distinct log \<and>
     complete_ok keys bl brl s1 read pos log"

lemma log_ok_mono:
  assumes "log_ok keys bl brl s1 log n" "m \<le> n"
  shows "log_ok keys bl brl s1 log m"
  unfolding log_ok_def
proof (intro allI impI)
  fix i r assume "(i, r) \<in> set log"
  with assms(1) have "i < length keys \<and> n \<le> r \<and>
        (\<exists>pre post. input s1 = pre @ keys ! i @ post \<and> length post = r \<and>
            depth_one keys bl brl s1 i pre (length (keys ! i)))"
    unfolding log_ok_def by blast
  with assms(2) show "i < length keys \<and> m \<le> r \<and>
        (\<exists>pre post. input s1 = pre @ keys ! i @ post \<and> length post = r \<and>
            depth_one keys bl brl s1 i pre (length (keys ! i)))"
    by simp
qed

lemma keys_plain:
  assumes "\<forall>k \<in> set keys. k \<noteq> [] \<and> set k \<inter> insert eof_char structural = {}" "i < length keys"
  shows "keys ! i \<noteq> []" "set (keys ! i) \<inter> structural = {}" "eof_char \<notin> set (keys ! i)"
proof -
  from assms have "keys ! i \<in> set keys" by simp
  with assms(1) have "keys ! i \<noteq> [] \<and> set (keys ! i) \<inter> insert eof_char structural = {}" by blast
  then show "keys ! i \<noteq> []" "set (keys ! i) \<inter> structural = {}" "eof_char \<notin> set (keys ! i)"
    by auto
qed

lemma readc_state:
  assumes "input s1 = read @ input s" "s = (scanned read s1)\<lparr>input := input s\<rparr>" "input s = c # cs"
  shows "input (snd (readc s)) = cs" "input s1 = (read @ [c]) @ input (snd (readc s))"
    "snd (readc s) = (scanned (read @ [c]) s1)\<lparr>input := input (snd (readc s))\<rparr>"
    "braces (snd (readc s)) = braces (scanned (read @ [c]) s1)"
    "brackets (snd (readc s)) = brackets (scanned (read @ [c]) s1)"
    "fst (readc s) = c"
proof -
  from assms(3) have r: "snd (readc s) = track c (s\<lparr>input := cs\<rparr>)" by (simp add: readc_Cons)
  show in': "input (snd (readc s)) = cs" by (simp add: r)
  from assms(1,3) in' show "input s1 = (read @ [c]) @ input (snd (readc s))" by simp
  have "track c (s\<lparr>input := cs\<rparr>) = (track c (scanned read s1))\<lparr>input := cs\<rparr>"
    by (subst assms(2)) (simp add: track_input_update)
  then show st: "snd (readc s) = (scanned (read @ [c]) s1)\<lparr>input := input (snd (readc s))\<rparr>"
    by (simp add: r scanned_snoc)
  show "braces (snd (readc s)) = braces (scanned (read @ [c]) s1)"
    by (subst st) simp
  show "brackets (snd (readc s)) = brackets (scanned (read @ [c]) s1)"
    by (subst st) simp
  from assms(3) show "fst (readc s) = c" by (simp add: readc_Cons)
qed

text \<open>Inside an eligible occurrence, and on the character before it, the depth test passes.\<close>

lemma occurrence_not_skipped:
  assumes occ: "r @ rest = pre @ k @ post" and el: "eligible keys bl brl s1 i pre"
    and k: "set k \<inter> structural = {}"
    and a: "length pre \<le> length r" "length r \<le> length pre + length k"
  shows "\<not> skipped bl brl (scanned r s1)"
proof -
  from prefix_of_occurrence [OF occ a] have "r = pre @ take (length r - length pre) k" .
  then have "scanned r s1 = scanned (take (length r - length pre) k) (scanned pre s1)"
    by (metis scanned_append)
  moreover have "set (take (length r - length pre) k) \<inter> structural = {}"
    using k by (meson disjoint_iff in_set_takeD)
  ultimately have "skipped bl brl (scanned r s1) = skipped bl brl (scanned pre s1)"
    using scanned_counters [of "take (length r - length pre) k" "scanned pre s1"]
    by (simp add: skipped_def)
  with el show ?thesis by (simp add: eligible_def)
qed

lemma field_inv_skip:
  assumes inv: "field_inv keys bl brl s1 read pos log s"
    and ne: "input s = c # cs" and sk: "skipped bl brl (snd (readc s))"
    and keys: "\<forall>k \<in> set keys. k \<noteq> [] \<and> set k \<inter> insert eof_char structural = {}"
  shows "field_inv keys bl brl s1 (read @ [c]) pos log (snd (readc s))"
proof -
  let ?s = "snd (readc s)"
  from inv have i1: "input s1 = read @ input s" and st: "s = (scanned read s1)\<lparr>input := input s\<rparr>"
    and len: "length pos = length keys" and P: "pos_ok keys bl brl s1 read pos s"
    and L: "log_ok keys bl brl s1 log (length (input s))" and dl: "distinct log"
    and C: "complete_ok keys bl brl s1 read pos log"
    by (simp_all add: field_inv_def)
  note R = readc_state [OF i1 st ne]
  have sk': "skipped bl brl (scanned (read @ [c]) s1)"
    using sk R(4,5) by (simp add: skipped_def)
  have P': "pos_ok keys bl brl s1 (read @ [c]) pos ?s"
    unfolding pos_ok_def
  proof (intro allI impI conjI)
    fix i assume i: "i < length keys"
    with P show "pos ! i \<le> length (keys ! i)" by (simp add: pos_ok_def)
    assume "0 < pos ! i"
    with P i obtain pre sk0 where "read = pre @ take (pos ! i) (keys ! i) @ sk0"
      "depth_one keys bl brl s1 i pre (pos ! i)"
      unfolding pos_ok_def by blast
    then have "read @ [c] = pre @ take (pos ! i) (keys ! i) @ (sk0 @ [c]) \<and>
      (sk0 @ [c] \<noteq> [] \<longrightarrow> skipped bl brl ?s) \<and> depth_one keys bl brl s1 i pre (pos ! i)"
      using sk by simp
    then show "\<exists>pre sk. read @ [c] = pre @ take (pos ! i) (keys ! i) @ sk \<and>
            (sk \<noteq> [] \<longrightarrow> skipped bl brl ?s) \<and> depth_one keys bl brl s1 i pre (pos ! i)"
      by (intro exI)
  qed
  have L': "log_ok keys bl brl s1 log (length (input ?s))"
    using log_ok_mono [OF L] R(1) ne by simp
  have C': "complete_ok keys bl brl s1 (read @ [c]) pos log"
    unfolding complete_ok_def
  proof (intro allI impI)
    fix i pre post
    assume i: "i < length keys" and occ: "input s1 = pre @ keys ! i @ post"
      and el: "eligible keys bl brl s1 i pre"
    let ?k = "keys ! i"
    note kp = keys_plain [OF keys i]
    from C i occ el have old1: "length pre + length ?k \<le> length read \<longrightarrow> (i, length post) \<in> set log"
      unfolding complete_ok_def by blast
    have notin: "\<not> (length pre \<le> length (read @ [c]) \<and> length (read @ [c]) \<le> length pre + length ?k)"
    proof
      assume a: "length pre \<le> length (read @ [c]) \<and> length (read @ [c]) \<le> length pre + length ?k"
      from R(2) occ have e: "(read @ [c]) @ input ?s = pre @ ?k @ post" by simp
      from occurrence_not_skipped [OF e el kp(2)] a sk' show False by blast
    qed
    show "(length pre + length ?k \<le> length (read @ [c]) \<longrightarrow> (i, length post) \<in> set log) \<and>
        (length pre \<le> length (read @ [c]) \<and> length (read @ [c]) < length pre + length ?k \<longrightarrow>
           pos ! i = length (read @ [c]) - length pre)"
      using notin old1 by auto
  qed
  from R(2,3) len P' L' dl C' show ?thesis unfolding field_inv_def by (intro conjI)
qed


lemma skipped_input [simp]: "skipped bl brl (s\<lparr>input := x\<rparr>) = skipped bl brl s"
  by (simp add: skipped_def)

text \<open>A character of a key that passes the depth test was read at depth one.\<close>

lemma compared_depth:
  assumes i1: "input s1 = read @ input s" and st: "s = (scanned read s1)\<lparr>input := input s\<rparr>"
    and ne: "input s = c # cs" and run: "bl < braces s"
    and nsk: "\<not> skipped bl brl (snd (readc s))" and c: "c \<notin> structural"
  shows "braces (scanned (read @ [c]) s1) = bl + 1" "brackets (scanned (read @ [c]) s1) \<le> brl"
    "\<not> skipped bl brl s"
proof -
  note R = readc_state [OF i1 st ne]
  from ne have r: "snd (readc s) = track c (s\<lparr>input := cs\<rparr>)" by (simp add: readc_Cons)
  from track_counters [OF c, of "s\<lparr>input := cs\<rparr>"] r
  have same: "braces (snd (readc s)) = braces s" "brackets (snd (readc s)) = brackets s" by simp_all
  from nsk have "\<not> bl + 1 < braces (snd (readc s))" "\<not> brl < brackets (snd (readc s))"
    by (simp_all add: skipped_def)
  with same run have "braces (snd (readc s)) = bl + 1" "brackets (snd (readc s)) \<le> brl"
    by (simp_all add: word_depth_one)
  with R(4,5) show "braces (scanned (read @ [c]) s1) = bl + 1"
    "brackets (scanned (read @ [c]) s1) \<le> brl" by simp_all
  from nsk same show "\<not> skipped bl brl s" by (simp add: skipped_def)
qed

lemma partial_extends:
  assumes i1: "input s1 = read @ input s" and st: "s = (scanned read s1)\<lparr>input := input s\<rparr>"
    and P: "pos_ok keys bl brl s1 read pos s"
    and ne: "input s = c # cs" and run: "bl < braces s"
    and nsk: "\<not> skipped bl brl (snd (readc s))"
    and keys: "\<forall>k \<in> set keys. k \<noteq> [] \<and> set k \<inter> insert eof_char structural = {}"
    and i: "i < length keys" and p: "pos ! i < length (keys ! i)" and ck: "c = keys ! i ! (pos ! i)"
  shows "\<exists>pre. read @ [c] = pre @ take (Suc (pos ! i)) (keys ! i) \<and>
     depth_one keys bl brl s1 i pre (Suc (pos ! i))"
proof -
  let ?k = "keys ! i" and ?p = "pos ! i"
  note kp = keys_plain [OF keys i]
  from p ck have "c \<in> set ?k" by simp
  with kp(2) have c: "c \<notin> structural" by blast
  note D = compared_depth [OF i1 st ne run nsk c]
  have tk: "take (Suc ?p) ?k = take ?p ?k @ [c]"
    using p ck by (simp add: take_Suc_conv_app_nth)
  show ?thesis
  proof (cases "?p = 0")
    case True
    from tk True have t1: "take (Suc 0) ?k = [c]" by simp
    have "read @ [c] = read @ take (Suc ?p) ?k" unfolding True t1 ..
    moreover have "depth_one keys bl brl s1 i read (Suc ?p)"
      unfolding depth_one_def True
    proof (intro allI impI)
      fix j assume "0 < j \<and> j \<le> Suc 0"
      then have "j = Suc 0" by simp
      with D(1,2) t1 show "braces (scanned (read @ take j ?k) s1) = bl + 1 \<and>
        brackets (scanned (read @ take j ?k) s1) \<le> brl" by simp
    qed
    ultimately show ?thesis by blast
  next
    case False
    with P i obtain pre sk where rd: "read = pre @ take ?p ?k @ sk"
      and sk: "sk \<noteq> [] \<longrightarrow> skipped bl brl s" and d: "depth_one keys bl brl s1 i pre ?p"
      unfolding pos_ok_def by blast
    from sk D(3) have "sk = []" by blast
    with rd have e: "read @ [c] = pre @ take (Suc ?p) ?k" by (simp add: tk)
    have "depth_one keys bl brl s1 i pre (Suc ?p)"
      unfolding depth_one_def
    proof (intro allI impI)
      fix j assume j: "0 < j \<and> j \<le> Suc ?p"
      show "braces (scanned (pre @ take j ?k) s1) = bl + 1 \<and>
        brackets (scanned (pre @ take j ?k) s1) \<le> brl"
      proof (cases "j = Suc ?p")
        case True
        with D(1,2) e show ?thesis by simp
      next
        case False
        with j d show ?thesis by (simp add: depth_one_def)
      qed
    qed
    with e show ?thesis by blast
  qed
qed

lemma char_of_occurrence:
  assumes "read @ c # cs = pre @ k @ post"
  shows "length pre = Suc (length read) \<Longrightarrow> last pre = c"
    and "length pre \<le> length read \<Longrightarrow> length read < length pre + length k \<Longrightarrow>
         c = k ! (length read - length pre)"
    and "length pre + length k = Suc (length read) \<Longrightarrow> length post = length cs"
proof -
  have n: "(read @ c # cs) ! length read = c" by simp
  {
    assume a: "length pre = Suc (length read)"
    then have "pre \<noteq> []" by auto
    from n assms have "(pre @ k @ post) ! length read = c" by simp
    with a have "pre ! length read = c" by (simp add: nth_append)
    with a \<open>pre \<noteq> []\<close> show "last pre = c" by (simp add: last_conv_nth)
  }
  {
    assume a: "length pre \<le> length read" "length read < length pre + length k"
    from n assms have "(pre @ k @ post) ! length read = c" by simp
    moreover from a have "length read - length pre < length k" by simp
    ultimately show "c = k ! (length read - length pre)" using a by (simp add: nth_append)
  }
  {
    assume a: "length pre + length k = Suc (length read)"
    from assms have "length (read @ c # cs) = length (pre @ k @ post)" by simp
    with a show "length post = length cs" by simp
  }
qed


lemma field_inv_compare:
  assumes inv: "field_inv keys bl brl s1 read pos log s"
    and run: "bl < braces s" and ne: "input s = c # cs"
    and nsk: "\<not> skipped bl brl (snd (readc s))"
    and m: "match_keys record_call c 0 keys pos log (snd (readc s)) = Some (pos', log', s2)"
    and keys: "\<forall>k \<in> set keys. k \<noteq> [] \<and> set k \<inter> insert eof_char structural = {}"
  shows "s2 = snd (readc s) \<and> field_inv keys bl brl s1 (read @ [c]) pos' log' s2"
proof -
  let ?s = "snd (readc s)" and ?n = "length keys"
  from inv have i1: "input s1 = read @ input s" and st: "s = (scanned read s1)\<lparr>input := input s\<rparr>"
    and len: "length pos = length keys" and P: "pos_ok keys bl brl s1 read pos s"
    and L: "log_ok keys bl brl s1 log (length (input s))" and dl: "distinct log"
    and C: "complete_ok keys bl brl s1 read pos log"
    by (simp_all add: field_inv_def)
  note R = readc_state [OF i1 st ne]
  note M = match_keys_record [OF m len]
  from M have s2: "s2 = ?s" and len': "length pos' = ?n"
    and adv: "\<And>j. j < ?n \<Longrightarrow> pos' ! j = advance c (keys ! j) (pos ! j)"
    and ple: "\<And>j. j < ?n \<Longrightarrow> pos ! j \<le> length (keys ! j)"
    by blast+
  let ?new = "map (\<lambda>j. (j, length cs)) (filter (\<lambda>j. fires c (keys ! j) (pos ! j)) [0 ..< ?n])"
  from M R(1) have log': "log' = log @ ?new" by simp
  have new_iff: "\<And>i r. (i, r) \<in> set ?new \<longleftrightarrow> r = length cs \<and> i < ?n \<and> fires c (keys ! i) (pos ! i)"
    by auto
  note ext = partial_extends [OF i1 st P ne run nsk keys]
  have P': "pos_ok keys bl brl s1 (read @ [c]) pos' ?s"
    unfolding pos_ok_def
  proof (intro allI impI conjI)
    fix i assume i: "i < ?n"
    from adv [OF i] ple [OF i] show "pos' ! i \<le> length (keys ! i)"
      by (simp add: advance_def)
    assume pos: "0 < pos' ! i"
    with adv [OF i] have a: "pos ! i < length (keys ! i)" "c = keys ! i ! (pos ! i)"
      "pos' ! i = Suc (pos ! i)"
      by (simp_all add: advance_def split: if_splits)
    from ext [OF i a(1,2)] obtain pre where "read @ [c] = pre @ take (pos' ! i) (keys ! i) @ []"
      "depth_one keys bl brl s1 i pre (pos' ! i)" by (auto simp: a(3))
    then show "\<exists>pre sk. read @ [c] = pre @ take (pos' ! i) (keys ! i) @ sk \<and>
        (sk \<noteq> [] \<longrightarrow> skipped bl brl ?s) \<and> depth_one keys bl brl s1 i pre (pos' ! i)"
      by blast
  qed
  have L': "log_ok keys bl brl s1 log' (length (input ?s))"
    unfolding log_ok_def
  proof (intro allI impI)
    fix i r assume "(i, r) \<in> set log'"
    then consider "(i, r) \<in> set log" | "(i, r) \<in> set ?new" unfolding log' by auto
    then show "i < ?n \<and> length (input ?s) \<le> r \<and>
        (\<exists>pre post. input s1 = pre @ keys ! i @ post \<and> length post = r \<and>
            depth_one keys bl brl s1 i pre (length (keys ! i)))"
    proof cases
      case 1
      with log_ok_mono [OF L, of "length (input ?s)"] R(1) ne show ?thesis
        by (simp add: log_ok_def)
    next
      case 2
      then have r: "r = length cs" and i: "i < ?n" and f: "fires c (keys ! i) (pos ! i)"
        using new_iff by blast+
      from f have a: "pos ! i < length (keys ! i)" "c = keys ! i ! (pos ! i)"
        "Suc (pos ! i) = length (keys ! i)" by (simp_all add: fires_def)
      from ext [OF i a(1,2)] obtain pre where "read @ [c] = pre @ keys ! i"
        "depth_one keys bl brl s1 i pre (length (keys ! i))" by (auto simp: a(3))
      with R(1,2) have "input s1 = pre @ keys ! i @ cs \<and> length cs = r \<and>
        depth_one keys bl brl s1 i pre (length (keys ! i))" by (simp add: r)
      with i r R(1) show ?thesis by blast
    qed
  qed
  have dl': "distinct log'"
  proof -
    have "distinct ?new" by (simp add: distinct_map inj_on_def)
    moreover have "set log \<inter> set ?new = {}"
    proof (rule ccontr)
      assume "set log \<inter> set ?new \<noteq> {}"
      then obtain i r where a: "(i, r) \<in> set log" "(i, r) \<in> set ?new" by auto
      from a(2) have "r = length cs" using new_iff by blast
      moreover from L a(1) have "length (input s) \<le> r" by (simp add: log_ok_def)
      ultimately show False using ne by simp
    qed
    ultimately show ?thesis using dl unfolding log' by simp
  qed
  have C': "complete_ok keys bl brl s1 (read @ [c]) pos' log'"
    unfolding complete_ok_def
  proof (intro allI impI)
    fix i pre post
    assume i: "i < ?n" and occ: "input s1 = pre @ keys ! i @ post"
      and el: "eligible keys bl brl s1 i pre"
    let ?k = "keys ! i"
    note kp = keys_plain [OF keys i]
    from C i occ el have old1: "length pre + length ?k \<le> length read \<longrightarrow> (i, length post) \<in> set log"
      and old2: "length pre \<le> length read \<and> length read < length pre + length ?k \<longrightarrow>
           pos ! i = length read - length pre"
      unfolding complete_ok_def by blast+
    from i1 ne occ have e: "read @ c # cs = pre @ ?k @ post" by simp
    note ch = char_of_occurrence [OF e]
    have 1: "(i, length post) \<in> set log'" if t: "length pre + length ?k \<le> length (read @ [c])"
    proof (cases "length pre + length ?k \<le> length read")
      case True
      with old1 show ?thesis by (simp add: log')
    next
      case False
      with t have eq: "length pre + length ?k = Suc (length read)" by simp
      with kp(1) have in_prog: "length pre \<le> length read" "length read < length pre + length ?k"
        by (cases ?k; simp)+
      with old2 have p: "pos ! i = length read - length pre" by blast
      from ch(2) [OF in_prog] have "c = ?k ! (pos ! i)" by (simp add: p)
      moreover from eq in_prog have "length read - length pre < length ?k"
        "Suc (length read - length pre) = length ?k" by arith+
      ultimately have "fires c ?k (pos ! i)" by (simp add: fires_def p)
      with i ch(3) [OF eq] new_iff have "(i, length post) \<in> set ?new" by blast
      then show ?thesis by (simp add: log')
    qed
    have 2: "pos' ! i = length (read @ [c]) - length pre"
      if t: "length pre \<le> length (read @ [c])" "length (read @ [c]) < length pre + length ?k"
    proof (cases "length pre = Suc (length read)")
      case True
      then have "pre \<noteq> []" by auto
      with el have "last pre \<notin> set ?k" by (simp add: eligible_def)
      with ch(1) [OF True] have "c \<notin> set ?k" by simp
      then have "advance c ?k (pos ! i) = 0" by (auto simp: advance_def)
      with adv [OF i] True show ?thesis by simp
    next
      case False
      with t have in_prog: "length pre \<le> length read" "length read < length pre + length ?k"
        by simp_all
      with old2 have p: "pos ! i = length read - length pre" by blast
      from ch(2) [OF in_prog] have "c = ?k ! (pos ! i)" by (simp add: p)
      with in_prog p have "advance c ?k (pos ! i) = Suc (pos ! i)" by (simp add: advance_def)
      with adv [OF i] p in_prog show ?thesis by simp
    qed
    from 1 2 show "(length pre + length ?k \<le> length (read @ [c]) \<longrightarrow> (i, length post) \<in> set log') \<and>
        (length pre \<le> length (read @ [c]) \<and> length (read @ [c]) < length pre + length ?k \<longrightarrow>
           pos' ! i = length (read @ [c]) - length pre)"
      by blast
  qed
  from R(2,3) len' P' L' dl' C' have "field_inv keys bl brl s1 (read @ [c]) pos' log' ?s"
    unfolding field_inv_def by (intro conjI)
  with s2 show ?thesis by simp
qed


lemma field_inv_eof:
  assumes inv: "field_inv keys bl brl s1 read pos log s" and eof: "input s = []"
    and m: "match_keys record_call eof_char 0 keys pos log s = Some (pos', log', s2)"
    and keys: "\<forall>k \<in> set keys. k \<noteq> [] \<and> set k \<inter> insert eof_char structural = {}"
  shows "s2 = s \<and> field_inv keys bl brl s1 read pos' log' s2"
proof -
  let ?n = "length keys"
  from inv have i1: "input s1 = read @ input s" and st: "s = (scanned read s1)\<lparr>input := input s\<rparr>"
    and len: "length pos = length keys"
    and L: "log_ok keys bl brl s1 log (length (input s))" and dl: "distinct log"
    and C: "complete_ok keys bl brl s1 read pos log"
    by (simp_all add: field_inv_def)
  note M = match_keys_record [OF m len]
  have ne: "eof_char \<noteq> keys ! j ! (pos ! j)" if "j < ?n" "pos ! j < length (keys ! j)" for j
    using keys_plain(3) [OF keys that(1)] that(2) by (metis nth_mem)
  have nf: "\<And>j. j < ?n \<Longrightarrow> \<not> fires eof_char (keys ! j) (pos ! j)"
    and az: "\<And>j. j < ?n \<Longrightarrow> advance eof_char (keys ! j) (pos ! j) = 0"
    using ne by (auto simp: fires_def advance_def)
  from M have s2: "s2 = s" and len': "length pos' = ?n" by blast+
  from M az have zero: "\<And>j. j < ?n \<Longrightarrow> pos' ! j = 0" by simp
  have "filter (\<lambda>j. fires eof_char (keys ! j) (pos ! j)) [0 ..< ?n] = []"
    using nf by (simp add: filter_empty_conv)
  with M have log': "log' = log" by simp
  have P': "pos_ok keys bl brl s1 read pos' s"
    unfolding pos_ok_def using zero by simp
  have C': "complete_ok keys bl brl s1 read pos' log"
    unfolding complete_ok_def
  proof (intro allI impI)
    fix i pre post
    assume i: "i < ?n" and occ: "input s1 = pre @ keys ! i @ post"
      and el: "eligible keys bl brl s1 i pre"
    from C i occ el have old1: "length pre + length (keys ! i) \<le> length read \<longrightarrow> (i, length post) \<in> set log"
      unfolding complete_ok_def by blast
    from i1 eof occ have "length read = length pre + length (keys ! i) + length post"
      by (metis append.right_neutral length_append add.assoc)
    with old1 show "(length pre + length (keys ! i) \<le> length read \<longrightarrow> (i, length post) \<in> set log) \<and>
        (length pre \<le> length read \<and> length read < length pre + length (keys ! i) \<longrightarrow>
           pos' ! i = length read - length pre)"
      by simp
  qed
  from i1 st len' P' L dl C' have "field_inv keys bl brl s1 read pos' log s"
    unfolding field_inv_def by (intro conjI)
  with s2 log' show ?thesis by simp
qed

lemma field_loop_record_inv:
  assumes run: "field_loop record_call keys bl brl pos log s = Some y"
    and keys: "\<forall>k \<in> set keys. k \<noteq> [] \<and> set k \<inter> insert eof_char structural = {}"
    and inv: "field_inv keys bl brl s1 read pos log s"
  shows "\<exists>read' pos'. field_inv keys bl brl s1 read' pos' (fst y) (snd y)"
proof -
  let ?P = "\<lambda>action keys bl brl pos a s y.
      action = record_call \<longrightarrow>
      (\<forall>k \<in> set keys. k \<noteq> [] \<and> set k \<inter> insert eof_char structural = {}) \<longrightarrow>
      (\<forall>read. field_inv keys bl brl s1 read pos a s \<longrightarrow>
         (\<exists>read' pos'. field_inv keys bl brl s1 read' pos' (fst y) (snd y)))"
  have "?P record_call keys bl brl pos log s y"
  proof (rule field_loop.raw_induct [where P = ?P, OF _ run], intro impI allI, goal_cases)
    case (1 f action keys bl brl pos a s y read)
    note IH = 1(1) and eq = 1(2) and act = 1(3) and kc = 1(4) and inv = 1(5)
    show ?case
    proof (cases "bl < braces s")
      case False
      with eq have "y = (a, s)" by simp
      with inv show ?thesis by auto
    next
      case True
      obtain c sr where r: "readc s = (c, sr)" by fastforce
      show ?thesis
      proof (cases "bl + 1 < braces sr \<or> brl < brackets sr")
        case sk: True
        with True eq r have rec: "f action keys bl brl pos a sr = Some y" by simp
        have "\<exists>read1. field_inv keys bl brl s1 read1 pos a sr"
        proof (cases "input s")
          case Nil
          with r have "sr = s" by simp
          with inv show ?thesis by blast
        next
          case (Cons c' cs)
          from sk r have "skipped bl brl (snd (readc s))" by (simp add: skipped_def)
          from field_inv_skip [OF inv Cons this kc] r show ?thesis by auto
        qed
        with IH [OF rec] act kc show ?thesis by blast
      next
        case nsk: False
        with True eq r obtain pos' a' s2 where
          m: "match_keys action c 0 keys pos a sr = Some (pos', a', s2)"
          and rec: "f action keys bl brl pos' a' s2 = Some y"
          by (auto split: option.splits)
        have "\<exists>read1. field_inv keys bl brl s1 read1 pos' a' s2"
        proof (cases "input s")
          case Nil
          with r have "sr = s" "c = eof_char" by simp_all
          with field_inv_eof [OF inv Nil _ kc] m act show ?thesis by blast
        next
          case (Cons c' cs)
          with r have c: "c = c'" by (simp add: readc_Cons)
          from nsk r have n: "\<not> skipped bl brl (snd (readc s))" by (simp add: skipped_def)
          from m r act c have "match_keys record_call c' 0 keys pos a (snd (readc s)) = Some (pos', a', s2)"
            by simp
          from field_inv_compare [OF inv True Cons n this kc] show ?thesis by blast
        qed
        with IH [OF rec] act kc show ?thesis by blast
      qed
    qed
  qed
  with keys inv show ?thesis by blast
qed

lemma field_inv_start:
  assumes keys: "\<forall>k \<in> set keys. k \<noteq> [] \<and> set k \<inter> insert eof_char structural = {}"
  shows "field_inv keys bl brl s1 [] (replicate (length keys) 0) [] s1"
proof -
  have "complete_ok keys bl brl s1 [] (replicate (length keys) 0) []"
    unfolding complete_ok_def using keys_plain(1) [OF keys] by simp
  then show ?thesis
    by (simp add: field_inv_def pos_ok_def log_ok_def)
qed

text \<open>
  Claim C3, as the code has it.  Take keys that are non-empty and hold no brace, no
  bracket and not the byte \<open>0xFF\<close>, and a handler that only records its calls.  After
  the field was entered in state \<open>s1\<close>:
  \<^item> no call is recorded twice;
  \<^item> every call with index \<open>i\<close> was made right behind a full copy of key \<open>i\<close> in the
    stream, each character of which was read at object depth exactly one more than at
    the call of \<open>scan_field\<close> (and at array depth not above);
  \<^item> a copy of key \<open>i\<close> that lies in the field at that depth is reported if the
    character before it (when there is one) does not occur in the key.  The comparison
    restarts at the first character of the key after a mismatch without looking at the
    mismatching character again, so other copies can be missed.
\<close>

theorem scan_field_reports_matches:
  assumes keys: "\<forall>k \<in> set keys. k \<noteq> [] \<and> set k \<inter> insert eof_char structural = {}"
    and enter: "enter_field_loop (braces s) (brackets s) s = Some (True, s1)"
    and run: "scan_field record_call keys [] s = Some (found, log, s')"
  shows "distinct log \<and>
    (\<forall>i r. (i, r) \<in> set log \<longrightarrow> i < length keys \<and>
       (\<exists>pre post. input s1 = pre @ keys ! i @ post \<and> length post = r \<and>
          (\<forall>j. 0 < j \<and> j \<le> length (keys ! i) \<longrightarrow>
             braces (scanned (pre @ take j (keys ! i)) s1) = braces s + 1 \<and>
             brackets (scanned (pre @ take j (keys ! i)) s1) \<le> brackets s))) \<and>
    (\<forall>i pre post. i < length keys \<and> input s1 = pre @ keys ! i @ post \<and>
       length (input s') \<le> length post \<and>
       \<not> skipped (braces s) (brackets s) (scanned pre s1) \<and>
       (pre = [] \<or> last pre \<notin> set (keys ! i)) \<longrightarrow> (i, length post) \<in> set log)"
proof -
  from run enter have fl: "field_loop record_call keys (braces s) (brackets s)
      (replicate (length keys) 0) [] s1 = Some (log, s')"
    by (auto simp: scan_field_def split: option.splits)
  from field_loop_record_inv [OF fl keys field_inv_start [OF keys]] obtain read' pos' where
    inv: "field_inv keys (braces s) (brackets s) s1 read' pos' log s'" by auto
  then have i1: "input s1 = read' @ input s'" and dl: "distinct log"
    and L: "log_ok keys (braces s) (brackets s) s1 log (length (input s'))"
    and C: "complete_ok keys (braces s) (brackets s) s1 read' pos' log"
    by (simp_all add: field_inv_def)
  have sound: "\<forall>i r. (i, r) \<in> set log \<longrightarrow> i < length keys \<and>
       (\<exists>pre post. input s1 = pre @ keys ! i @ post \<and> length post = r \<and>
          (\<forall>j. 0 < j \<and> j \<le> length (keys ! i) \<longrightarrow>
             braces (scanned (pre @ take j (keys ! i)) s1) = braces s + 1 \<and>
             brackets (scanned (pre @ take j (keys ! i)) s1) \<le> brackets s))"
  proof (intro allI impI)
    fix i r assume a: "(i, r) \<in> set log"
    note L [unfolded log_ok_def depth_one_def, rule_format, OF a]
    then show "i < length keys \<and>
       (\<exists>pre post. input s1 = pre @ keys ! i @ post \<and> length post = r \<and>
          (\<forall>j. 0 < j \<and> j \<le> length (keys ! i) \<longrightarrow>
             braces (scanned (pre @ take j (keys ! i)) s1) = braces s + 1 \<and>
             brackets (scanned (pre @ take j (keys ! i)) s1) \<le> brackets s))"
      by (elim conjE) (intro conjI)
  qed
  have complete: "(i, length post) \<in> set log"
    if "i < length keys" "input s1 = pre @ keys ! i @ post" "length (input s') \<le> length post"
      "\<not> skipped (braces s) (brackets s) (scanned pre s1)" "pre = [] \<or> last pre \<notin> set (keys ! i)"
    for i pre post
  proof -
    from that(4,5) have el: "eligible keys (braces s) (brackets s) s1 i pre"
      by (simp add: eligible_def)
    from i1 that(2) have "length read' + length (input s') = length pre + length (keys ! i) + length post"
      by (metis length_append add.assoc)
    with that(3) have "length pre + length (keys ! i) \<le> length read'" by simp
    with C that(1,2) el show ?thesis unfolding complete_ok_def by blast
  qed
  from complete have "\<forall>i pre post. i < length keys \<and> input s1 = pre @ keys ! i @ post \<and>
       length (input s') \<le> length post \<and>
       \<not> skipped (braces s) (brackets s) (scanned pre s1) \<and>
       (pre = [] \<or> last pre \<notin> set (keys ! i)) \<longrightarrow> (i, length post) \<in> set log"
    by simp
  with dl sound show ?thesis by (intro conjI)
qed

definition two_keys :: "string list" where
  "two_keys = [quoted ''rows'', quoted ''controllers'']"

theorem scan_field_reports_matches_witness:
  "enter_field_loop (braces (open_file json1)) (brackets (open_file json1)) (open_file json1)
     = Some (True, (open_file json1)\<lparr>input := tl json1, braces := 1\<rparr>) \<and>
   scan_field record_call two_keys [] (open_file json1)
     = Some (True, [(0, 93), (1, 20)], \<lparr>input = [], braces = 0, brackets = 0, instring = False\<rparr>) \<and>
   distinct [(0 :: nat, 93 :: nat), (1, 20)] \<and>
   (\<exists>pre post. tl json1 = pre @ two_keys ! 0 @ post \<and> length post = 93)"
proof -
  have k: "\<forall>k \<in> set two_keys. k \<noteq> [] \<and> set k \<inter> insert eof_char structural = {}"
    by (simp add: two_keys_def quoted_def structural_def eof_char_def dquote_def
        lbrace_def rbrace_def lbracket_def rbracket_def)
  have "input (open_file json1) = [] @ lbrace # tl json1"
    by (simp add: open_file_def json1_def lbrace_def)
  from enter_field_loop_opens [OF _ this]
  have e: "enter_field_loop (braces (open_file json1)) (brackets (open_file json1)) (open_file json1)
     = Some (True, (open_file json1)\<lparr>input := tl json1, braces := 1\<rparr>)"
    by (simp add: open_file_def)
  have r: "scan_field record_call two_keys [] (open_file json1)
     = Some (True, [(0, 93), (1, 20)], \<lparr>input = [], braces = 0, brackets = 0, instring = False\<rparr>)"
    by code_simp
  have e': "enter_field_loop (braces (open_file json1)) (brackets (open_file json1)) (open_file json1)
     = Some (True, (open_file json1)\<lparr>input := tl json1, braces := 1\<rparr>)
     \<and> input ((open_file json1)\<lparr>input := tl json1, braces := 1\<rparr>) = tl json1"
    using e by simp
  note T = scan_field_reports_matches [OF k e r]
  note d = T [THEN conjunct1]
  note S = T [THEN conjunct2, THEN conjunct1, rule_format, of 0 93]
  from S have "\<exists>pre post. tl json1 = pre @ two_keys ! 0 @ post \<and> length post = 93"
    by simp blast
  with e r d show ?thesis by (intro conjI)
qed

text \<open>
  The claim as stated fails: in the stream below the key \<open>"rows"\<close> stands in the field at
  depth one, but the quote before it starts a partial match, the quote of the key ends
  that partial match, and the handler is never called.
\<close>

definition doubled_quotes :: string where
  "doubled_quotes = ''{'' @ dquote # quoted ''rows'' @ dquote # ''}''"

theorem scan_field_misses_occurrence_counterexample:
  "scan_field record_call [quoted ''rows''] [] (open_file doubled_quotes)
     = Some (True, [], \<lparr>input = [], braces = 0, brackets = 0, instring = False\<rparr>)
   \<and> doubled_quotes = (''{'' @ [dquote]) @ quoted ''rows'' @ (dquote # ''}'')
   \<and> braces (scanned (''{'' @ [dquote]) (open_file doubled_quotes)) = 1
   \<and> braces (scanned (''{'' @ dquote # quoted ''rows'') (open_file doubled_quotes)) = 1"
  by code_simp

section \<open>The upstream traversal (upstream\_features.cpp)\<close>

text \<open>
  The recursion frame of \<open>traverse\<close> (the fields \<open>v\<close>, \<open>i\<close>, \<open>best\<close>, \<open>reached\<close>,
  \<open>started\<close> of \<open>struct frame\<close>) and the variables the loop works on: the two stacks
  (top first), the globals \<open>upstream\<close> and \<open>dfs\<close>, the counter and the flag that
  carries the result of the last finished call.
\<close>

record frame =
  fm_v :: nat
  fm_i :: nat
  fm_best :: nat
  fm_reached :: bool
  fm_started :: bool

record tstate =
  stk :: "frame list"
  acc :: "nat list"
  upstream :: "bool list"
  dfs :: "(nat \<times> nat) list"
  count :: nat
  child_reached :: bool

text \<open>
  Lines 158 to 164.  \<open>acc.top()\<close> on an empty stack and an index outside a vector are
  undefined: \<open>None\<close>.
\<close>

fun pop_component :: "nat \<Rightarrow> bool \<Rightarrow> nat list \<Rightarrow> bool list \<Rightarrow> (nat list \<times> bool list) option" where
  "pop_component u cr [] up = None"
| "pop_component u cr (a # as) up =
     (if a \<noteq> u then
        (if a < length up then pop_component u cr as (up[a := up ! a \<or> cr]) else None)
      else if u < length up then Some (as, up[u := up ! u \<or> cr])
      else None)"

text \<open>Lines 152 to 172: the frame just popped resumes after a call, or starts.\<close>

definition resume ::
  "(nat \<times> nat) list list \<Rightarrow> frame \<Rightarrow> tstate \<Rightarrow> (frame \<times> tstate) option" where
  "resume g fm s =
     (if fm_started fm then
        (if fm_v fm < length g \<and> fm_i fm < length (g ! fm_v fm) then
           (let u = fst (g ! fm_v fm ! fm_i fm) in
            if u < length (dfs s) \<and> fm_v fm < length (dfs s) then
              (if snd (dfs s ! u) \<ge> fst (dfs s ! fm_v fm) then
                 (case pop_component u (child_reached s) (acc s) (upstream s) of
                    None \<Rightarrow> None
                  | Some (acc', up') \<Rightarrow>
                      Some (fm\<lparr>fm_i := fm_i fm + 1\<rparr>, s\<lparr>acc := acc', upstream := up'\<rparr>))
               else
                 Some (fm\<lparr>fm_best := min (fm_best fm) (snd (dfs s ! u)),
                          fm_i := fm_i fm + 1\<rparr>, s))
            else None)
         else None)
      else if fm_v fm < length (dfs s) then
        Some (fm, s\<lparr>dfs := (dfs s)[fm_v fm := (fm_best fm, fm_best fm)],
                    acc := fm_v fm # acc s\<rparr>)
      else None)"

text \<open>Lines 173 to 185: the edges already explored or deleted are passed over.\<close>

function skip_edges ::
  "(nat \<times> nat) list list \<Rightarrow> bool list \<Rightarrow> (nat \<times> nat) list \<Rightarrow> frame \<Rightarrow> frame option" where
  "skip_edges g bad d fm =
     (if fm_v fm < length g then
        (if fm_i fm < length (g ! fm_v fm) then
           (let u = fst (g ! fm_v fm ! fm_i fm); e = snd (g ! fm_v fm ! fm_i fm) in
            if u < length d \<and> e < length bad then
              (if fst (d ! u) > 0 \<or> bad ! e then
                 skip_edges g bad d
                   (if \<not> bad ! e then
                      fm\<lparr>fm_reached := fm_reached fm \<or> u = TAIL,
                         fm_best := min (fm_best fm) (snd (d ! u)),
                         fm_i := fm_i fm + 1\<rparr>
                    else fm\<lparr>fm_i := fm_i fm + 1\<rparr>)
               else Some fm)
            else None)
         else Some fm)
      else None)"
  by pat_completeness auto
termination
  by (relation "measure (\<lambda>(g, bad, d, fm). length (g ! fm_v fm) - fm_i fm)") auto

declare skip_edges.simps [simp del]

text \<open>Lines 186 to 197: the call returns, or recurses through edge \<open>fm.i\<close>.\<close>

definition finish_or_descend ::
  "(nat \<times> nat) list list \<Rightarrow> frame \<Rightarrow> frame list \<Rightarrow> tstate \<Rightarrow> tstate option" where
  "finish_or_descend g fm rest s =
     (if fm_i fm = length (g ! fm_v fm) then
        (if fm_v fm < length (dfs s) then
           Some (s\<lparr>stk := rest,
                   dfs := (dfs s)[fm_v fm := (fst (dfs s ! fm_v fm), fm_best fm)],
                   child_reached := fm_reached fm\<rparr>)
         else None)
      else
        (let u = fst (g ! fm_v fm ! fm_i fm) in
         Some (s\<lparr>stk := \<lparr>fm_v = u, fm_i = 0, fm_best = count s, fm_reached = False,
                          fm_started = False\<rparr>
                       # fm\<lparr>fm_reached := fm_reached fm \<or> u = TAIL, fm_started := True\<rparr>
                       # rest,
                 count := count s + 1, child_reached := False\<rparr>)))"

text \<open>One turn of the loop of lines 148 to 198, for a non-empty frame stack.\<close>

definition step :: "(nat \<times> nat) list list \<Rightarrow> bool list \<Rightarrow> tstate \<Rightarrow> tstate option" where
  "step g bad s =
     (case stk s of
        [] \<Rightarrow> None
      | fm # rest \<Rightarrow>
          (case resume g (fm\<lparr>fm_reached := fm_reached fm \<or> child_reached s\<rparr>) s of
             None \<Rightarrow> None
           | Some (fm1, s1) \<Rightarrow>
               (case skip_edges g bad (dfs s1) fm1 of
                  None \<Rightarrow> None
                | Some fm2 \<Rightarrow> finish_or_descend g fm2 rest s1)))"

partial_function (option) traverse_loop ::
  "(nat \<times> nat) list list \<Rightarrow> bool list \<Rightarrow> tstate \<Rightarrow> tstate option" where
  "traverse_loop g bad s =
     (if stk s = [] then Some s
      else (case step g bad s of None \<Rightarrow> None | Some s' \<Rightarrow> traverse_loop g bad s'))"

declare traverse_loop.simps [code]

text \<open>Lines 201 to 204.\<close>

fun mark_rest :: "nat list \<Rightarrow> bool list \<Rightarrow> bool list option" where
  "mark_rest [] up = Some up"
| "mark_rest (a # as) up = (if a < length up then mark_rest as (up[a := True]) else None)"

text \<open>
  Lines 90 to 92 and 138 to 146: \<open>upstream\<close> and \<open>dfs\<close> as \<open>main\<close> sets them, and the
  first frame.
\<close>

definition traverse_init :: "nat \<Rightarrow> tstate" where
  "traverse_init n =
     \<lparr>stk = [\<lparr>fm_v = 0, fm_i = 0, fm_best = 1, fm_reached = False, fm_started = False\<rparr>],
      acc = [], upstream = replicate n False, dfs = replicate n (0, 0), count = 2,
      child_reached = False\<rparr>"

definition traverse_graph ::
  "(nat \<times> nat) list list \<Rightarrow> bool list \<Rightarrow> nat \<Rightarrow> tstate option" where
  "traverse_graph g bad n =
     (case traverse_loop g bad (traverse_init n) of
        None \<Rightarrow> None
      | Some s \<Rightarrow>
          (case mark_rest (acc s) (upstream s) of
             None \<Rightarrow> None
           | Some up \<Rightarrow> Some (s\<lparr>acc := [], upstream := up\<rparr>)))"

definition traverse :: "gstate \<Rightarrow> tstate option" where
  "traverse t = traverse_graph (graph t) (badedge t) (nodes t)"


section \<open>The feature emitter (main)\<close>

text \<open>
  Lines 95 to 117 work on the globals left by \<open>traverse\<close>, on the stack
  \<open>find_upstream\<close> and on the output stream, kept here as the list of the strings
  written to it, one for each \<open>fout <<\<close>.
\<close>

record estate = tstate +
  find_upstream :: "nat list"
  fout :: "string list"

text \<open>Lines 104 to 115: the loop over the adjacency list of \<open>v\<close>.\<close>

fun emit_edges ::
  "string list \<Rightarrow> string list \<Rightarrow> nat \<Rightarrow> (nat \<times> nat) list \<Rightarrow> estate \<Rightarrow> estate option" where
  "emit_edges nm en v [] s = Some s"
| "emit_edges nm en v (p # ps) s =
     (let u = fst p in
      if u < length (upstream s) then
        (if \<not> upstream s ! u then emit_edges nm en v ps s
         else if u > v \<and> \<not> snd p < length en then None
         else
           (let s1 = (if u > v then s\<lparr>fout := fout s @ [en ! snd p]\<rparr> else s) in
            if u < length (dfs s1) then
              (if fst (dfs s1 ! u) \<noteq> 0 then
                 (if u < length nm then
                    emit_edges nm en v ps
                      (s1\<lparr>dfs := (dfs s1)[u := (0, snd (dfs s1 ! u))],
                          find_upstream := u # find_upstream s1,
                          fout := fout s1 @ [nm ! u]\<rparr>)
                  else None)
               else emit_edges nm en v ps s1)
            else None))
      else None)"

definition unemitted :: "(nat \<times> nat) list \<Rightarrow> nat" where
  "unemitted d = length (filter (\<lambda>p. fst p \<noteq> 0) d)"

lemma unemitted_update:
  "u < length d \<Longrightarrow> fst (d ! u) \<noteq> 0 \<Longrightarrow> Suc (unemitted (d[u := (0, x)])) = unemitted d"
proof (induction d arbitrary: u)
  case Nil
  then show ?case by simp
next
  case (Cons a d)
  then show ?case by (cases u) (auto simp: unemitted_def)
qed

lemma emit_edges_measure:
  "emit_edges nm en v ps s = Some s' \<Longrightarrow>
   2 * unemitted (dfs s') + length (find_upstream s')
     \<le> 2 * unemitted (dfs s) + length (find_upstream s)"
proof (induction ps arbitrary: s)
  case Nil
  then show ?case by simp
next
  case (Cons p ps)
  let ?u = "fst p"
  let ?s1 = "if ?u > v then s\<lparr>fout := fout s @ [en ! snd p]\<rparr> else s"
  have s1: "dfs ?s1 = dfs s" "find_upstream ?s1 = find_upstream s" by simp_all
  from Cons.prems consider
      (skip) "emit_edges nm en v ps s = Some s'"
    | (old) "emit_edges nm en v ps ?s1 = Some s'"
    | (new) "?u < length (dfs ?s1)" "fst (dfs ?s1 ! ?u) \<noteq> 0"
        "emit_edges nm en v ps
           (?s1\<lparr>dfs := (dfs ?s1)[?u := (0, snd (dfs ?s1 ! ?u))],
               find_upstream := ?u # find_upstream ?s1, fout := fout ?s1 @ [nm ! ?u]\<rparr>) = Some s'"
    by (simp add: Let_def split: if_splits)
  then show ?case
  proof cases
    case skip
    with Cons.IH show ?thesis by blast
  next
    case old
    from Cons.IH [OF old] s1 show ?thesis by simp
  next
    case new
    from unemitted_update [OF new(1,2), of "snd (dfs ?s1 ! ?u)"] Cons.IH [OF new(3)] s1
    show ?thesis by simp
  qed
qed

text \<open>Lines 100 to 116.\<close>

function emit_loop ::
  "string list \<Rightarrow> string list \<Rightarrow> (nat \<times> nat) list list \<Rightarrow> estate \<Rightarrow> estate option" where
  "emit_loop nm en g s =
     (case find_upstream s of
        [] \<Rightarrow> Some s
      | v # rest \<Rightarrow>
          if v < length nm \<and> v < length g then
            (case emit_edges nm en v (g ! v)
                    (s\<lparr>find_upstream := rest, fout := fout s @ [nm ! v]\<rparr>) of
               None \<Rightarrow> None
             | Some s' \<Rightarrow> emit_loop nm en g s')
          else None)"
  by pat_completeness auto
termination
proof (relation "measure (\<lambda>(nm, en, g, s). 2 * unemitted (dfs s) + length (find_upstream s))",
    goal_cases)
  case 1
  show ?case by simp
next
  case (2 nm en g s v rest s')
  from emit_edges_measure [OF 2(3)] 2(1) show ?case by simp
qed

declare emit_loop.simps [simp del]

text \<open>Lines 96 to 98 and the loop; the result is what was written to the output file.\<close>

definition emit :: "gstate \<Rightarrow> tstate \<Rightarrow> string list option" where
  "emit t s =
     (if 0 < length (dfs s) then
        map_option fout
          (emit_loop (name t) (edgename t) (graph t)
             (tstate.extend (s\<lparr>dfs := (dfs s)[0 := (0, snd (dfs s ! 0))]\<rparr>)
                (estate.fields [0] [])))
      else None)"

text \<open>The program on the contents of its two input files: the contents of the output file.\<close>

definition upstream_features :: "string \<Rightarrow> string \<Rightarrow> string option" where
  "upstream_features text startingpoints =
     (case read_graph text startingpoints of
        None \<Rightarrow> None
      | Some t \<Rightarrow>
          (case traverse t of
             None \<Rightarrow> None
           | Some s \<Rightarrow> map_option concat (emit t s)))"

definition json_two :: string where
  "json_two = ''{'' @ quoted ''rows'' @ '':[{'' @ quoted ''viaGlobalId'' @ '':'' @ quoted ''e1''
     @ '','' @ quoted ''fromGlobalId'' @ '':'' @ quoted ''A'' @ '','' @ quoted ''toGlobalId'' @ '':''
     @ quoted ''C'' @ ''},{'' @ quoted ''viaGlobalId''
     @ '':'' @ quoted ''e2'' @ '','' @ quoted ''fromGlobalId'' @ '':'' @ quoted ''D'' @ '',''
     @ quoted ''toGlobalId'' @ '':'' @ quoted ''E'' @ ''}],'' @ quoted ''controllers'' @ '':[{''
     @ quoted ''globalId'' @ '':'' @ quoted ''C'' @ ''},{'' @ quoted ''globalId'' @ '':'' @ quoted ''D'' @ ''}]}''"

section \<open>The traversal visits what HEAD reaches\<close>

text \<open>
  A graph as the constructor leaves it: \<open>n\<close> adjacency lists whose entries name vertices
  below \<open>n\<close> and edges inside \<open>badedge\<close>.
\<close>

definition wf_graph :: "(nat \<times> nat) list list \<Rightarrow> bool list \<Rightarrow> nat \<Rightarrow> bool" where
  "wf_graph g bad n \<longleftrightarrow>
     length g = n \<and> 0 < n \<and> (\<forall>x < n. \<forall>p \<in> set (g ! x). fst p < n \<and> snd p < length bad)"

text \<open>The vertices that non-deleted edges connect to \<open>HEAD\<close>.\<close>

inductive reach :: "(nat \<times> nat) list list \<Rightarrow> bool list \<Rightarrow> nat \<Rightarrow> bool"
  for g :: "(nat \<times> nat) list list" and bad :: "bool list" where
  reach_head: "reach g bad HEAD"
| reach_step: "reach g bad a \<Longrightarrow> a < length g \<Longrightarrow> p \<in> set (g ! a) \<Longrightarrow> \<not> bad ! snd p
               \<Longrightarrow> reach g bad (fst p)"

definition visited :: "(nat \<times> nat) list \<Rightarrow> nat \<Rightarrow> bool" where
  "visited d x \<longleftrightarrow> 0 < fst (d ! x)"

definition edge_done :: "bool list \<Rightarrow> (nat \<times> nat) list \<Rightarrow> nat \<times> nat \<Rightarrow> bool" where
  "edge_done bad d p \<longleftrightarrow> bad ! snd p \<or> visited d (fst p)"

definition closed :: "(nat \<times> nat) list list \<Rightarrow> bool list \<Rightarrow> (nat \<times> nat) list \<Rightarrow> nat \<Rightarrow> bool" where
  "closed g bad d x \<longleftrightarrow> (\<forall>j < length (g ! x). edge_done bad d (g ! x ! j))"

definition frame_ok :: "(nat \<times> nat) list list \<Rightarrow> bool list \<Rightarrow> (nat \<times> nat) list \<Rightarrow> frame \<Rightarrow> bool" where
  "frame_ok g bad d f \<longleftrightarrow>
     fm_started f \<and> fm_v f < length g \<and> fm_i f < length (g ! fm_v f) \<and> visited d (fm_v f) \<and>
     (\<forall>j < fm_i f. edge_done bad d (g ! fm_v f ! j))"

fun linked :: "(nat \<times> nat) list list \<Rightarrow> nat \<Rightarrow> frame list \<Rightarrow> bool" where
  "linked g x [] \<longleftrightarrow> x = 0"
| "linked g x (f # fs) \<longleftrightarrow> fst (g ! fm_v f ! fm_i f) = x \<and> linked g (fm_v f) fs"

definition vset :: "nat \<Rightarrow> (nat \<times> nat) list \<Rightarrow> nat set" where
  "vset n d = {x. x < n \<and> visited d x}"

text \<open>The discovery numbers given so far are pairwise different and at most their count.\<close>

definition numbered :: "nat \<Rightarrow> (nat \<times> nat) list \<Rightarrow> bool" where
  "numbered n d \<longleftrightarrow>
     (\<forall>x < n. fst (d ! x) \<le> card (vset n d)) \<and> inj_on (\<lambda>x. fst (d ! x)) (vset n d)"

definition common ::
  "(nat \<times> nat) list list \<Rightarrow> bool list \<Rightarrow> nat \<Rightarrow> nat set \<Rightarrow> frame list \<Rightarrow> tstate \<Rightarrow> bool" where
  "common g bad n A fs s \<longleftrightarrow>
     length (dfs s) = n \<and> length (upstream s) = n \<and>
     (\<forall>a \<in> set (acc s). a < n \<and> visited (dfs s) a) \<and>
     (\<forall>x < n. visited (dfs s) x \<longrightarrow> reach g bad x) \<and>
     (\<forall>x < n. upstream s ! x \<longrightarrow> visited (dfs s) x) \<and>
     (\<forall>x < n. visited (dfs s) x \<longrightarrow> closed g bad (dfs s) x \<or> x \<in> A) \<and>
     (\<forall>f \<in> set fs. frame_ok g bad (dfs s) f) \<and>
     numbered n (dfs s)"

definition traverse_inv :: "(nat \<times> nat) list list \<Rightarrow> bool list \<Rightarrow> nat \<Rightarrow> tstate \<Rightarrow> bool" where
  "traverse_inv g bad n s \<longleftrightarrow>
     (case stk s of
        [] \<Rightarrow> common g bad n {} [] s \<and> visited (dfs s) 0 \<and> 0 \<in> set (acc s) \<and>
              count s = Suc (card (vset n (dfs s)))
      | f # rest \<Rightarrow>
          linked g (fm_v f) rest \<and>
          (if fm_started f then
             common g bad n (fm_v ` set (f # rest)) (f # rest) s \<and>
             visited (dfs s) (fst (g ! fm_v f ! fm_i f)) \<and>
             subseq (fst (g ! fm_v f ! fm_i f) # fm_v f # map fm_v rest) (acc s) \<and>
             count s = Suc (card (vset n (dfs s)))
           else
             common g bad n (fm_v ` set rest) rest s \<and>
             fm_v f < n \<and> fm_i f = 0 \<and> \<not> visited (dfs s) (fm_v f) \<and>
             fm_best f = Suc (card (vset n (dfs s))) \<and>
             reach g bad (fm_v f) \<and> subseq (map fm_v rest) (acc s) \<and>
             count s = Suc (Suc (card (vset n (dfs s))))))"

definition mid_inv ::
  "(nat \<times> nat) list list \<Rightarrow> bool list \<Rightarrow> nat \<Rightarrow> frame \<Rightarrow> frame list \<Rightarrow> tstate \<Rightarrow> bool" where
  "mid_inv g bad n fm rest s \<longleftrightarrow>
     common g bad n (insert (fm_v fm) (fm_v ` set rest)) rest s \<and>
     linked g (fm_v fm) rest \<and> fm_v fm < n \<and> visited (dfs s) (fm_v fm) \<and>
     fm_i fm \<le> length (g ! fm_v fm) \<and>
     (\<forall>j < fm_i fm. edge_done bad (dfs s) (g ! fm_v fm ! j)) \<and>
     subseq (fm_v fm # map fm_v rest) (acc s) \<and>
     count s = Suc (card (vset n (dfs s)))"

lemma commonD:
  assumes "common g bad n A fs s"
  shows "length (dfs s) = n" "length (upstream s) = n"
    "\<And>a. a \<in> set (acc s) \<Longrightarrow> a < n \<and> visited (dfs s) a"
    "\<And>x. x < n \<Longrightarrow> visited (dfs s) x \<Longrightarrow> reach g bad x"
    "\<And>x. x < n \<Longrightarrow> upstream s ! x \<Longrightarrow> visited (dfs s) x"
    "\<And>x. x < n \<Longrightarrow> visited (dfs s) x \<Longrightarrow> closed g bad (dfs s) x \<or> x \<in> A"
    "\<And>f. f \<in> set fs \<Longrightarrow> frame_ok g bad (dfs s) f"
    "numbered n (dfs s)"
  using assms unfolding common_def by blast+

lemma commonI:
  assumes "length (dfs s) = n" "length (upstream s) = n"
    "\<And>a. a \<in> set (acc s) \<Longrightarrow> a < n \<and> visited (dfs s) a"
    "\<And>x. x < n \<Longrightarrow> visited (dfs s) x \<Longrightarrow> reach g bad x"
    "\<And>x. x < n \<Longrightarrow> upstream s ! x \<Longrightarrow> visited (dfs s) x"
    "\<And>x. x < n \<Longrightarrow> visited (dfs s) x \<Longrightarrow> closed g bad (dfs s) x \<or> x \<in> A"
    "\<And>f. f \<in> set fs \<Longrightarrow> frame_ok g bad (dfs s) f"
    "numbered n (dfs s)"
  shows "common g bad n A fs s"
  using assms unfolding common_def by blast

text \<open>Marking a vertex visited keeps what was established.\<close>

lemma visited_update:
  "x < length d \<Longrightarrow> visited (d[v := (b, c)]) x \<longleftrightarrow> (if x = v then 0 < b else visited d x)"
  by (simp add: visited_def nth_list_update)

lemma edge_done_mono:
  assumes "edge_done bad d p" "\<And>x. visited d x \<Longrightarrow> visited d' x"
  shows "edge_done bad d' p"
  using assms by (auto simp: edge_done_def)

lemma closed_mono:
  assumes "closed g bad d x" "\<And>x. visited d x \<Longrightarrow> visited d' x"
  shows "closed g bad d' x"
  using assms unfolding closed_def by (blast intro: edge_done_mono)

lemma frame_ok_mono:
  assumes "frame_ok g bad d f" "\<And>x. visited d x \<Longrightarrow> visited d' x"
  shows "frame_ok g bad d' f"
  using assms unfolding frame_ok_def by (blast intro: edge_done_mono)


lemma pop_component_Some:
  assumes "u \<in> set as" "\<forall>a \<in> set as. a < length up"
  shows "\<exists>as' up'. pop_component u cr as up = Some (as', up') \<and> length up' = length up \<and>
    set as' \<subseteq> set as \<and> (\<forall>X. subseq (u # X) as \<longrightarrow> subseq X as') \<and>
    (\<forall>x < length up. up' ! x \<longrightarrow> up ! x \<or> x \<in> set as)"
  using assms
proof (induction as arbitrary: up)
  case Nil
  then show ?case by simp
next
  case (Cons a as)
  show ?case
  proof (cases "a = u")
    case True
    with Cons.prems show ?thesis
      by (auto simp: nth_list_update)
  next
    case False
    let ?up = "up[a := up ! a \<or> cr]"
    from False Cons.prems have "u \<in> set as" "\<forall>a \<in> set as. a < length ?up" by auto
    from Cons.IH [OF this] obtain as' up' where
      p: "pop_component u cr as ?up = Some (as', up')" and l: "length up' = length ?up"
      and sub: "set as' \<subseteq> set as" and sq: "\<forall>X. subseq (u # X) as \<longrightarrow> subseq X as'"
      and m: "\<forall>x < length ?up. up' ! x \<longrightarrow> ?up ! x \<or> x \<in> set as"
      by blast
    from False Cons.prems p have 1: "pop_component u cr (a # as) up = Some (as', up')" by simp
    from sq False have 2: "\<forall>X. subseq (u # X) (a # as) \<longrightarrow> subseq X as'" by simp
    have 3: "\<forall>x < length up. up' ! x \<longrightarrow> up ! x \<or> x \<in> set (a # as)"
    proof (intro allI impI)
      fix x assume "x < length up" "up' ! x"
      with m have "?up ! x \<or> x \<in> set as" by simp
      then show "up ! x \<or> x \<in> set (a # as)"
        using \<open>x < length up\<close> by (cases "x = a") (auto simp: nth_list_update)
    qed
    from 1 l sub 2 3 show ?thesis by auto
  qed
qed

lemma vset_le: "card (vset n d) \<le> n"
proof -
  have "vset n d \<subseteq> {..<n}" by (auto simp: vset_def)
  then have "card (vset n d) \<le> card {..<n}" by (intro card_mono) simp_all
  then show ?thesis by simp
qed

lemma vset_insert:
  assumes "v < n" "length d = n" "\<not> visited d v" "0 < b"
  shows "vset n (d[v := (b, c)]) = insert v (vset n d)" "card (vset n (d[v := (b, c)])) = Suc (card (vset n d))"
proof -
  show e: "vset n (d[v := (b, c)]) = insert v (vset n d)"
    using assms by (auto simp: vset_def visited_update)
  have "finite (vset n d)" by (simp add: vset_def)
  moreover from assms(3) have "v \<notin> vset n d" by (simp add: vset_def)
  ultimately show "card (vset n (d[v := (b, c)])) = Suc (card (vset n d))"
    unfolding e by simp
qed

lemma vset_snd:
  assumes "length d = n"
  shows "vset n (d[v := (fst (d ! v), c)]) = vset n d"
proof -
  have "visited (d[v := (fst (d ! v), c)]) x \<longleftrightarrow> visited d x" for x
    by (cases "x = v"; cases "v < length d") (simp_all add: visited_def list_update_beyond)
  then show ?thesis by (simp add: vset_def)
qed

lemma numbered_snd:
  assumes "numbered n d" "length d = n"
  shows "numbered n (d[v := (fst (d ! v), c)])"
proof -
  have "fst (d[v := (fst (d ! v), c)] ! x) = fst (d ! x)" for x
    by (cases "x = v"; cases "v < length d") (simp_all add: list_update_beyond)
  with assms vset_snd [OF assms(2), of v c] show ?thesis by (simp add: numbered_def)
qed

lemma numbered_new:
  assumes nd: "numbered n d" and l: "length d = n" and v: "v < n" and nv: "\<not> visited d v"
  shows "numbered n (d[v := (Suc (card (vset n d)), c)])"
proof -
  let ?b = "Suc (card (vset n d))" and ?d = "d[v := (Suc (card (vset n d)), c)]"
  have vs: "vset n ?d = insert v (vset n d)" and cd: "card (vset n ?d) = ?b"
    using vset_insert [OF v l nv, of ?b c] by simp_all
  from nd have le: "\<And>x. x < n \<Longrightarrow> fst (d ! x) \<le> card (vset n d)"
    and inj: "inj_on (\<lambda>x. fst (d ! x)) (vset n d)" by (simp_all add: numbered_def)
  have val: "fst (?d ! x) = (if x = v then ?b else fst (d ! x))" if "x < n" for x
    using that l by (simp add: nth_list_update)
  have 1: "\<forall>x < n. fst (?d ! x) \<le> card (vset n ?d)"
  proof (intro allI impI)
    fix x assume x: "x < n"
    from le [OF x] val [OF x] show "fst (?d ! x) \<le> card (vset n ?d)" unfolding cd by simp
  qed
  have 2: "inj_on (\<lambda>x. fst (?d ! x)) (vset n ?d)"
    unfolding vs
  proof (rule inj_onI)
    fix x y assume x: "x \<in> insert v (vset n d)" and y: "y \<in> insert v (vset n d)"
      and e: "fst (?d ! x) = fst (?d ! y)"
    from x y v have xn: "x < n" and yn: "y < n" by (auto simp: vset_def)
    show "x = y"
    proof (cases "x = v")
      case True
      with e val [OF xn] val [OF yn] le [OF yn] show ?thesis by (cases "y = v") simp_all
    next
      case xv: False
      show ?thesis
      proof (cases "y = v")
        case True
        with xv e val [OF xn] val [OF yn] le [OF xn] show ?thesis by simp
      next
        case False
        with xv x y e val [OF xn] val [OF yn] inj show ?thesis by (auto dest: inj_onD)
      qed
    qed
  qed
  from 1 2 show ?thesis by (simp add: numbered_def)
qed

lemma resume_unstarted:
  assumes wf: "wf_graph g bad n" and inv: "traverse_inv g bad n s" and st: "stk s = f # rest"
    and ns: "\<not> fm_started f"
  defines "fm \<equiv> f\<lparr>fm_reached := fm_reached f \<or> child_reached s\<rparr>"
  defines "s1 \<equiv> s\<lparr>dfs := (dfs s)[fm_v f := (fm_best f, fm_best f)], acc := fm_v f # acc s\<rparr>"
  shows "resume g fm s = Some (fm, s1)" "mid_inv g bad n fm rest s1"
    "card (vset n (dfs s1)) = Suc (card (vset n (dfs s)))"
proof -
  let ?v = "fm_v f" and ?d = "dfs s" and ?d' = "(dfs s)[fm_v f := (fm_best f, fm_best f)]"
  from inv st ns have C: "common g bad n (fm_v ` set rest) rest s"
    and lk: "linked g ?v rest" and v: "?v < n" and i0: "fm_i f = 0"
    and nv: "\<not> visited ?d ?v" and b': "fm_best f = Suc (card (vset n ?d))"
    and r: "reach g bad ?v"
    and sq: "subseq (map fm_v rest) (acc s)" and cnt: "count s = Suc (Suc (card (vset n ?d)))"
    by (simp_all add: traverse_inv_def)
  note D = commonD [OF C]
  from b' have b: "0 < fm_best f" by simp
  from v D(1) show "resume g fm s = Some (fm, s1)"
    using ns by (simp add: resume_def fm_def s1_def)
  have mono: "\<And>x. visited ?d x \<Longrightarrow> visited ?d' x"
  proof -
    fix x assume "visited ?d x"
    with nv have "x \<noteq> ?v" by blast
    with \<open>visited ?d x\<close> show "visited ?d' x" by (simp add: visited_def)
  qed
  have cm: "closed g bad ?d x \<Longrightarrow> closed g bad ?d' x" for x
    by (erule closed_mono) (rule mono)
  have fo: "frame_ok g bad ?d x \<Longrightarrow> frame_ok g bad ?d' x" for x
    by (erule frame_ok_mono) (rule mono)
  have vis: "\<And>x. x < n \<Longrightarrow> visited ?d' x \<longleftrightarrow> x = ?v \<or> visited ?d x"
    using D(1) b nv by (auto simp: visited_update)
  have C': "common g bad n (insert ?v (fm_v ` set rest)) rest s1"
  proof (rule commonI, goal_cases)
    case 1 show ?case using D(1) by (simp add: s1_def)
  next
    case 2 show ?case using D(2) by (simp add: s1_def)
  next
    case (3 a)
    then have "a = ?v \<or> a \<in> set (acc s)" by (simp add: s1_def)
    with D(3) v vis mono show ?case by (auto simp: s1_def)
  next
    case (4 x)
    with vis r D(4) show ?case by (auto simp: s1_def)
  next
    case (5 x)
    with D(5) mono show ?case by (auto simp: s1_def)
  next
    case (6 x)
    then have "x = ?v \<or> visited ?d x" using vis by (simp add: s1_def)
    with D(6) [OF 6(1)] cm show ?case by (auto simp: s1_def)
  next
    case (7 f')
    with D(7) fo show ?case by (auto simp: s1_def)
  next
    case 8
    from numbered_new [OF D(8) D(1) v nv, of "fm_best f"] b' show ?case by (simp add: s1_def)
  qed
  from vset_insert(2) [OF v D(1) nv b] have card: "card (vset n ?d') = Suc (card (vset n ?d))" .
  then show "card (vset n (dfs s1)) = Suc (card (vset n (dfs s)))" by (simp add: s1_def)
  from C' lk v vis [OF v] i0 sq cnt card show "mid_inv g bad n fm rest s1"
    by (simp add: mid_inv_def fm_def s1_def)
qed


lemma subseq_head_mem: "subseq (x # xs) ys \<Longrightarrow> x \<in> set ys"
  by (induction ys) (auto split: if_splits)

lemma mid_inv_cong:
  "fm_v fm' = fm_v fm \<Longrightarrow> fm_i fm' = fm_i fm \<Longrightarrow> mid_inv g bad n fm' rest s = mid_inv g bad n fm rest s"
  by (simp add: mid_inv_def)

lemma resume_started:
  assumes wf: "wf_graph g bad n" and inv: "traverse_inv g bad n s" and st: "stk s = f # rest"
    and sf: "fm_started f"
  shows "\<exists>fm1 s1. resume g (f\<lparr>fm_reached := r\<rparr>) s = Some (fm1, s1) \<and>
    mid_inv g bad n fm1 rest s1 \<and> fm_v fm1 = fm_v f \<and> fm_i fm1 = Suc (fm_i f) \<and>
    dfs s1 = dfs s \<and> count s1 = count s"
proof -
  let ?v = "fm_v f" and ?i = "fm_i f" and ?d = "dfs s"
  let ?u = "fst (g ! ?v ! ?i)"
  let ?fm = "f\<lparr>fm_reached := r\<rparr>"
  from inv st sf have C: "common g bad n (fm_v ` set (f # rest)) (f # rest) s"
    and lk: "linked g ?v rest" and vu: "visited ?d ?u"
    and sq: "subseq (?u # ?v # map fm_v rest) (acc s)"
    and cnt: "count s = Suc (card (vset n ?d))"
    by (simp_all add: traverse_inv_def)
  note D = commonD [OF C]
  from D(7) [of f] have F: "?v < length g" "?i < length (g ! ?v)" "visited ?d ?v"
    "\<And>j. j < ?i \<Longrightarrow> edge_done bad ?d (g ! ?v ! j)"
    by (simp_all add: frame_ok_def)
  from wf have ln: "length g = n" by (simp add: wf_graph_def)
  from wf F(1,2) ln have un: "?u < n" unfolding wf_graph_def by (metis nth_mem)
  from F(1) ln have vn: "?v < n" by simp
  have dn: "\<And>j. j < Suc ?i \<Longrightarrow> edge_done bad ?d (g ! ?v ! j)"
    using F(4) vu by (auto simp: less_Suc_eq edge_done_def)
  have sq': "subseq (?v # map fm_v rest) (acc s)"
    using sq by (rule subseq_Cons')
  have A: "fm_v ` set (f # rest) = insert ?v (fm_v ` set rest)" by simp
  have base: "mid_inv g bad n (fm'\<lparr>fm_i := Suc ?i\<rparr>) rest s'"
    if "fm_v fm' = ?v" "common g bad n (insert ?v (fm_v ` set rest)) rest s'"
      "dfs s' = ?d" "count s' = count s" "subseq (?v # map fm_v rest) (acc s')" for fm' s'
    using that lk vn F(2,3) dn cnt by (simp add: mid_inv_def)
  have Cs: "common g bad n (insert ?v (fm_v ` set rest)) rest s"
    using D by (intro commonI) (auto simp: A)
  show ?thesis
  proof (cases "snd (?d ! ?u) \<ge> fst (?d ! ?v)")
    case False
    let ?fm1 = "?fm\<lparr>fm_best := min (fm_best ?fm) (snd (?d ! ?u)), fm_i := fm_i ?fm + 1\<rparr>"
    from False sf F(1,2) un vn D(1)
    have "resume g ?fm s = Some (?fm1, s)" by (simp add: resume_def Let_def)
    moreover have "mid_inv g bad n ?fm1 rest s"
      using base [of "?fm\<lparr>fm_best := min (fm_best ?fm) (snd (?d ! ?u))\<rparr>" s] Cs sq'
      by (simp add: mid_inv_cong [of ?fm1 "?fm\<lparr>fm_best := min (fm_best ?fm) (snd (?d ! ?u)), fm_i := Suc ?i\<rparr>"])
    ultimately show ?thesis by simp
  next
    case True
    from sq have "?u \<in> set (acc s)" by (rule subseq_head_mem)
    moreover from D(2,3) have "\<forall>a \<in> set (acc s). a < length (upstream s)" by simp
    ultimately obtain as' up' where
      p: "pop_component ?u (child_reached s) (acc s) (upstream s) = Some (as', up')"
      and l: "length up' = length (upstream s)" and sub: "set as' \<subseteq> set (acc s)"
      and sqp: "\<forall>X. subseq (?u # X) (acc s) \<longrightarrow> subseq X as'"
      and m: "\<forall>x < length (upstream s). up' ! x \<longrightarrow> upstream s ! x \<or> x \<in> set (acc s)"
      using pop_component_Some [of ?u "acc s" "upstream s" "child_reached s"] by blast
    let ?s1 = "s\<lparr>acc := as', upstream := up'\<rparr>"
    let ?fm1 = "?fm\<lparr>fm_i := fm_i ?fm + 1\<rparr>"
    from True sf F(1,2) un vn D(1) p
    have "resume g ?fm s = Some (?fm1, ?s1)" by (simp add: resume_def Let_def)
    moreover have C1: "common g bad n (insert ?v (fm_v ` set rest)) rest ?s1"
    proof (rule commonI, goal_cases)
      case (3 a)
      with sub D(3) [of a] show ?case by auto
    next
      case (5 x)
      with m D(2) have "upstream s ! x \<or> x \<in> set (acc s)" by simp
      with D(5) [OF 5(1)] D(3) [of x] show ?case by auto
    next
      case (6 x)
      with D(6) [of x] show ?case by (simp add: A)
    qed (use D l in simp_all)
    moreover from sqp sq have "subseq (?v # map fm_v rest) as'" by blast
    ultimately show ?thesis using base [of ?fm ?s1] by simp
  qed
qed


lemma mid_invD:
  assumes "mid_inv g bad n fm rest s"
  shows "common g bad n (insert (fm_v fm) (fm_v ` set rest)) rest s"
    "linked g (fm_v fm) rest" "fm_v fm < n" "visited (dfs s) (fm_v fm)"
    "fm_i fm \<le> length (g ! fm_v fm)"
    "\<And>j. j < fm_i fm \<Longrightarrow> edge_done bad (dfs s) (g ! fm_v fm ! j)"
    "subseq (fm_v fm # map fm_v rest) (acc s)"
    "count s = Suc (card (vset n (dfs s)))"
  using assms unfolding mid_inv_def by blast+

lemma wf_graph_entry:
  assumes "wf_graph g bad n" "v < n" "i < length (g ! v)"
  shows "fst (g ! v ! i) < n" "snd (g ! v ! i) < length bad"
  using assms unfolding wf_graph_def by (metis nth_mem)+

lemma skip_edges_ok:
  assumes wf: "wf_graph g bad n"
  shows "mid_inv g bad n fm rest s \<Longrightarrow>
    \<exists>fm2. skip_edges g bad (dfs s) fm = Some fm2 \<and> mid_inv g bad n fm2 rest s \<and>
      fm_v fm2 = fm_v fm \<and> fm_i fm \<le> fm_i fm2 \<and>
      (fm_i fm2 < length (g ! fm_v fm) \<longrightarrow> \<not> edge_done bad (dfs s) (g ! fm_v fm ! fm_i fm2))"
proof (induction "length (g ! fm_v fm) - fm_i fm" arbitrary: fm rule: less_induct)
  case less
  note m = mid_invD [OF less.prems]
  let ?v = "fm_v fm" and ?i = "fm_i fm" and ?d = "dfs s"
  from wf have ln: "length g = n" by (simp add: wf_graph_def)
  from m(3) ln have vg: "?v < length g" by simp
  show ?case
  proof (cases "?i < length (g ! ?v)")
    case False
    with vg have "skip_edges g bad ?d fm = Some fm" by (subst skip_edges.simps) simp
    with False less.prems show ?thesis by simp
  next
    case True
    let ?u = "fst (g ! ?v ! ?i)" and ?e = "snd (g ! ?v ! ?i)"
    from wf_graph_entry [OF wf m(3) True] commonD(1) [OF m(1)]
    have ran: "?u < length ?d" "?e < length bad" by simp_all
    show ?thesis
    proof (cases "edge_done bad ?d (g ! ?v ! ?i)")
      case False
      then have "\<not> (fst (?d ! ?u) > 0 \<or> bad ! ?e)" by (simp add: edge_done_def visited_def)
      with vg True ran have "skip_edges g bad ?d fm = Some fm"
        by (subst skip_edges.simps) (simp add: Let_def)
      with False less.prems show ?thesis by simp
    next
      case ed: True
      let ?fm' = "if \<not> bad ! ?e then
          fm\<lparr>fm_reached := fm_reached fm \<or> ?u = TAIL,
             fm_best := min (fm_best fm) (snd (?d ! ?u)), fm_i := ?i + 1\<rparr>
        else fm\<lparr>fm_i := ?i + 1\<rparr>"
      have v': "fm_v ?fm' = ?v" and i': "fm_i ?fm' = Suc ?i" by simp_all
      from ed have "fst (?d ! ?u) > 0 \<or> bad ! ?e" by (auto simp: edge_done_def visited_def)
      with vg True ran have eq: "skip_edges g bad ?d fm = skip_edges g bad ?d ?fm'"
        by (subst skip_edges.simps) (simp add: Let_def)
      have dn: "\<And>j. j < Suc ?i \<Longrightarrow> edge_done bad ?d (g ! ?v ! j)"
        using m(6) ed by (auto simp: less_Suc_eq)
      have m': "mid_inv g bad n ?fm' rest s"
        unfolding mid_inv_def v' i' using m(1,2,3,4,7,8) True dn by simp
      from True have "length (g ! fm_v ?fm') - fm_i ?fm' < length (g ! ?v) - ?i"
        unfolding v' i' by simp
      from less.hyps [OF this m'] obtain fm2 where
        "skip_edges g bad ?d ?fm' = Some fm2" "mid_inv g bad n fm2 rest s"
        "fm_v fm2 = fm_v ?fm'" "fm_i ?fm' \<le> fm_i fm2"
        "fm_i fm2 < length (g ! fm_v ?fm') \<longrightarrow> \<not> edge_done bad ?d (g ! fm_v ?fm' ! fm_i fm2)"
        by blast
      then show ?thesis unfolding eq v' i' by simp
    qed
  qed
qed

lemma finish_ok:
  assumes wf: "wf_graph g bad n" and m: "mid_inv g bad n fm rest s"
    and e: "fm_i fm = length (g ! fm_v fm)"
  shows "\<exists>s'. finish_or_descend g fm rest s = Some s' \<and> traverse_inv g bad n s' \<and>
    stk s' = rest \<and> vset n (dfs s') = vset n (dfs s)"
proof -
  note M = mid_invD [OF m]
  note D = commonD [OF M(1)]
  let ?v = "fm_v fm" and ?d = "dfs s"
  define d' where "d' = ?d[?v := (fst (?d ! ?v), fm_best fm)]"
  let ?s' = "s\<lparr>stk := rest, dfs := d', child_reached := fm_reached fm\<rparr>"
  from e M(3) D(1) have r: "finish_or_descend g fm rest s = Some ?s'"
    by (simp add: finish_or_descend_def d'_def)
  have vis: "visited d' x \<longleftrightarrow> visited ?d x" for x
    unfolding d'_def
    by (cases "x = ?v"; cases "?v < length ?d") (simp_all add: visited_def list_update_beyond)
  have ed: "edge_done bad d' p \<longleftrightarrow> edge_done bad ?d p" for p
    by (simp add: edge_done_def vis)
  have cl: "closed g bad d' x \<longleftrightarrow> closed g bad ?d x" for x
    by (simp add: closed_def ed)
  have fo: "frame_ok g bad d' x \<longleftrightarrow> frame_ok g bad ?d x" for x
    by (simp add: frame_ok_def ed vis)
  have vs: "vset n d' = vset n ?d" by (simp add: vset_def vis)
  have ld: "length d' = length ?d" by (simp add: d'_def)
  from e M(6) have clv: "closed g bad ?d ?v" by (simp add: closed_def)
  have C: "common g bad n (fm_v ` set rest) rest ?s'"
  proof (rule commonI, goal_cases)
    case (6 x)
    with D(6) [of x] clv show ?case by (auto simp: vis cl)
  next
    case 8
    from numbered_snd [OF D(8) D(1)] show ?case by (simp add: d'_def)
  qed (use D in \<open>simp_all add: vis fo ld\<close>)
  have "traverse_inv g bad n ?s'"
  proof (cases rest)
    case Nil
    with M(2) have v0: "?v = 0" by simp
    from M(7) have "?v \<in> set (acc s)" by (rule subseq_head_mem)
    with C M(4,8) Nil v0 show ?thesis by (simp add: traverse_inv_def vis vs)
  next
    case (Cons f' rest')
    from D(7) [of f'] Cons have "fm_started f'" by (simp add: frame_ok_def)
    moreover from M(2) Cons have "fst (g ! fm_v f' ! fm_i f') = ?v" "linked g (fm_v f') rest'"
      by simp_all
    ultimately show ?thesis using C M(4,7,8) Cons by (simp add: traverse_inv_def vis vs)
  qed
  with r vs show ?thesis by simp
qed

lemma descend_ok:
  assumes wf: "wf_graph g bad n" and m: "mid_inv g bad n fm rest s"
    and i: "fm_i fm < length (g ! fm_v fm)"
    and ne: "\<not> edge_done bad (dfs s) (g ! fm_v fm ! fm_i fm)"
  shows "\<exists>s' new fm'. finish_or_descend g fm rest s = Some s' \<and> traverse_inv g bad n s' \<and>
    stk s' = new # fm' # rest \<and> \<not> fm_started new \<and> fm_started fm' \<and> fm_v fm' = fm_v fm \<and>
    fm_i fm' = fm_i fm \<and> dfs s' = dfs s"
proof -
  note M = mid_invD [OF m]
  note D = commonD [OF M(1)]
  let ?v = "fm_v fm" and ?d = "dfs s"
  let ?u = "fst (g ! ?v ! fm_i fm)"
  let ?new = "\<lparr>fm_v = ?u, fm_i = 0, fm_best = count s, fm_reached = False, fm_started = False\<rparr>"
  let ?fm' = "fm\<lparr>fm_reached := fm_reached fm \<or> ?u = TAIL, fm_started := True\<rparr>"
  let ?s' = "s\<lparr>stk := ?new # ?fm' # rest, count := count s + 1, child_reached := False\<rparr>"
  from i have r: "finish_or_descend g fm rest s = Some ?s'"
    by (simp add: finish_or_descend_def Let_def)
  from wf have ln: "length g = n" by (simp add: wf_graph_def)
  from wf_graph_entry(1) [OF wf M(3) i] have un: "?u < n" .
  from ne have nb: "\<not> bad ! snd (g ! ?v ! fm_i fm)" and nv: "\<not> visited ?d ?u"
    by (simp_all add: edge_done_def)
  from D(4) [OF M(3,4)] have "reach g bad ?v" .
  from reach_step [OF this _ _ nb] M(3) i ln have ru: "reach g bad ?u" by simp
  have fo: "frame_ok g bad ?d ?fm'"
    using M(3,4,6) i ln by (simp add: frame_ok_def)
  have C: "common g bad n (fm_v ` set (?fm' # rest)) (?fm' # rest) ?s'"
  proof (rule commonI, goal_cases)
    case (7 f)
    with D(7) [of f] fo show ?case by auto
  qed (use D in simp_all)
  have "traverse_inv g bad n ?s'"
    unfolding traverse_inv_def using C M(2,7,8) un nv ru by simp
  with r show ?thesis by simp
qed


text \<open>
  What decreases at every turn of the loop: the number of vertices not yet visited, then the
  number of adjacency entries the started frames have not yet passed.
\<close>

definition pending :: "(nat \<times> nat) list list \<Rightarrow> frame list \<Rightarrow> nat" where
  "pending g fs = sum_list (map (\<lambda>f. if fm_started f then length (g ! fm_v f) - fm_i f else 0) fs)"

definition traverse_rel :: "(nat \<times> nat) list list \<Rightarrow> nat \<Rightarrow> (tstate \<times> tstate) set" where
  "traverse_rel g n =
     inv_image (less_than <*lex*> less_than)
       (\<lambda>s. (n - card (vset n (dfs s)), pending g (stk s)))"

lemma wf_traverse_rel: "wf (traverse_rel g n)"
  unfolding traverse_rel_def by (intro wf_inv_image wf_lex_prod wf_less_than)

lemma traverse_relI:
  "n - card (vset n (dfs s')) < n - card (vset n (dfs s)) \<or>
   vset n (dfs s') = vset n (dfs s) \<and> pending g (stk s') < pending g (stk s)
   \<Longrightarrow> (s', s) \<in> traverse_rel g n"
  by (auto simp: traverse_rel_def)

lemma step_ok:
  assumes wf: "wf_graph g bad n" and inv: "traverse_inv g bad n s" and ne: "stk s \<noteq> []"
  shows "\<exists>s'. step g bad s = Some s' \<and> traverse_inv g bad n s' \<and> (s', s) \<in> traverse_rel g n"
proof -
  from ne obtain f rest where st: "stk s = f # rest" by (cases "stk s") auto
  let ?f = "f\<lparr>fm_reached := fm_reached f \<or> child_reached s\<rparr>"
  have "\<exists>fm1 s1. resume g ?f s = Some (fm1, s1) \<and> mid_inv g bad n fm1 rest s1 \<and>
      fm_v fm1 = fm_v f \<and>
      (if fm_started f then fm_i fm1 = Suc (fm_i f) \<and> dfs s1 = dfs s
       else card (vset n (dfs s1)) = Suc (card (vset n (dfs s))))"
  proof (cases "fm_started f")
    case True
    from resume_started [OF wf inv st True, of "fm_reached f \<or> child_reached s"] True
    show ?thesis by auto
  next
    case False
    from resume_unstarted [OF wf inv st False] False show ?thesis by auto
  qed
  then obtain fm1 s1 where r: "resume g ?f s = Some (fm1, s1)"
    and m1: "mid_inv g bad n fm1 rest s1" and v1: "fm_v fm1 = fm_v f"
    and eff: "if fm_started f then fm_i fm1 = Suc (fm_i f) \<and> dfs s1 = dfs s
       else card (vset n (dfs s1)) = Suc (card (vset n (dfs s)))"
    by blast
  from skip_edges_ok [OF wf m1] obtain fm2 where k: "skip_edges g bad (dfs s1) fm1 = Some fm2"
    and m2: "mid_inv g bad n fm2 rest s1" and v2: "fm_v fm2 = fm_v fm1"
    and i2: "fm_i fm1 \<le> fm_i fm2"
    and stop: "fm_i fm2 < length (g ! fm_v fm1) \<longrightarrow>
      \<not> edge_done bad (dfs s1) (g ! fm_v fm1 ! fm_i fm2)"
    by blast
  from r k st have stp: "step g bad s = finish_or_descend g fm2 rest s1"
    by (simp add: step_def)
  have "\<exists>s'. finish_or_descend g fm2 rest s1 = Some s' \<and> traverse_inv g bad n s' \<and>
      vset n (dfs s') = vset n (dfs s1) \<and>
      (fm_started f \<longrightarrow> pending g (stk s') < pending g (f # rest))"
  proof (cases "fm_i fm2 = length (g ! fm_v fm2)")
    case True
    from finish_ok [OF wf m2 True] obtain s' where
      s': "finish_or_descend g fm2 rest s1 = Some s'" "traverse_inv g bad n s'" "stk s' = rest"
      "vset n (dfs s') = vset n (dfs s1)" by blast
    have "pending g (stk s') < pending g (f # rest)" if "fm_started f"
      using that eff i2 True v1 v2 s'(3) by (simp add: pending_def)
    with s' show ?thesis by blast
  next
    case False
    with mid_invD(5) [OF m2] have lt: "fm_i fm2 < length (g ! fm_v fm2)" by simp
    with stop v2 have "\<not> edge_done bad (dfs s1) (g ! fm_v fm2 ! fm_i fm2)" by simp
    from descend_ok [OF wf m2 lt this] obtain s' new fm' where
      s': "finish_or_descend g fm2 rest s1 = Some s'" "traverse_inv g bad n s'"
      "stk s' = new # fm' # rest" "\<not> fm_started new" "fm_started fm'" "fm_v fm' = fm_v fm2"
      "fm_i fm' = fm_i fm2" "dfs s' = dfs s1" by blast
    have "pending g (stk s') < pending g (f # rest)" if "fm_started f"
      using that eff i2 lt v1 v2 s'(3-7) by (simp add: pending_def)
    with s' show ?thesis by auto
  qed
  then obtain s' where f: "finish_or_descend g fm2 rest s1 = Some s'"
    and inv': "traverse_inv g bad n s'" and vs: "vset n (dfs s') = vset n (dfs s1)"
    and pd: "fm_started f \<longrightarrow> pending g (stk s') < pending g (f # rest)"
    by blast
  have "(s', s) \<in> traverse_rel g n"
  proof (rule traverse_relI, cases "fm_started f")
    case True
    with eff vs pd st
    show "n - card (vset n (dfs s')) < n - card (vset n (dfs s)) \<or>
      vset n (dfs s') = vset n (dfs s) \<and> pending g (stk s') < pending g (stk s)" by simp
  next
    case False
    with eff vs have "card (vset n (dfs s')) = Suc (card (vset n (dfs s)))" by simp
    with vset_le [of n "dfs s'"]
    have "n - card (vset n (dfs s')) < n - card (vset n (dfs s))" by arith
    then show "n - card (vset n (dfs s')) < n - card (vset n (dfs s)) \<or>
      vset n (dfs s') = vset n (dfs s) \<and> pending g (stk s') < pending g (stk s)" by blast
  qed
  with stp f inv' show ?thesis by simp
qed

lemma traverse_loop_total:
  assumes wf: "wf_graph g bad n"
  shows "traverse_inv g bad n s \<Longrightarrow>
    \<exists>t. traverse_loop g bad s = Some t \<and> stk t = [] \<and> traverse_inv g bad n t"
proof (induction s rule: wf_induct_rule [OF wf_traverse_rel [of g n]])
  case (1 s)
  show ?case
  proof (cases "stk s = []")
    case True
    with 1(2) show ?thesis by (subst traverse_loop.simps) simp
  next
    case False
    from step_ok [OF wf 1(2) False] obtain s' where s': "step g bad s = Some s'"
      "traverse_inv g bad n s'" "(s', s) \<in> traverse_rel g n" by blast
    from False s'(1) have "traverse_loop g bad s = traverse_loop g bad s'"
      by (subst traverse_loop.simps) simp
    with 1(1) [OF s'(3,2)] show ?thesis by simp
  qed
qed

lemma traverse_inv_init:
  assumes "wf_graph g bad n"
  shows "traverse_inv g bad n (traverse_init n)"
proof -
  from assms have n: "0 < n" by (simp add: wf_graph_def)
  have nv: "\<not> visited (replicate n (0, 0)) x" if "x < n" for x
    using that by (simp add: visited_def)
  have vs: "vset n (replicate n (0, 0)) = {}" by (auto simp: vset_def nv)
  have C: "common g bad n {} [] (traverse_init n)"
    by (rule commonI) (simp_all add: traverse_init_def nv numbered_def vs)
  from C n nv [OF n] vs reach_head [of g bad] show ?thesis
    by (simp add: traverse_inv_def traverse_init_def HEAD_def)
qed

lemma mark_rest_Some:
  "\<forall>a \<in> set as. a < length up \<Longrightarrow>
   \<exists>up'. mark_rest as up = Some up' \<and> length up' = length up \<and>
     (\<forall>x < length up. up' ! x \<longleftrightarrow> up ! x \<or> x \<in> set as)"
proof (induction as arbitrary: up)
  case Nil
  then show ?case by simp
next
  case (Cons a as)
  from Cons.prems have "\<forall>b \<in> set as. b < length (up[a := True])" by simp
  from Cons.IH [OF this] obtain up' where u: "mark_rest as (up[a := True]) = Some up'"
    "length up' = length up"
    "\<forall>x < length up. up' ! x \<longleftrightarrow> (up[a := True]) ! x \<or> x \<in> set as" by auto
  from Cons.prems u(1) have "mark_rest (a # as) up = Some up'" by simp
  moreover have "\<forall>x < length up. up' ! x \<longleftrightarrow> up ! x \<or> x \<in> set (a # as)"
  proof (intro allI impI)
    fix x assume x: "x < length up"
    with u(3) have "up' ! x \<longleftrightarrow> (up[a := True]) ! x \<or> x \<in> set as" by simp
    with x show "up' ! x \<longleftrightarrow> up ! x \<or> x \<in> set (a # as)"
      by (cases "x = a") simp_all
  qed
  ultimately show ?case using u(2) by blast
qed

lemma closed_reach:
  assumes wf: "wf_graph g bad n" and C: "common g bad n {} [] s" and v0: "visited (dfs s) 0"
  shows "reach g bad v \<Longrightarrow> v < n \<and> visited (dfs s) v"
proof (induction rule: reach.induct)
  case reach_head
  from wf v0 show ?case by (simp add: wf_graph_def HEAD_def)
next
  case (reach_step a p)
  from wf have ln: "length g = n" by (simp add: wf_graph_def)
  from reach_step.IH have a: "a < n" "visited (dfs s) a" by simp_all
  from commonD(6) [OF C a] have cl: "closed g bad (dfs s) a" by simp
  from reach_step.hyps(3) obtain j where j: "j < length (g ! a)" "g ! a ! j = p"
    by (auto simp: in_set_conv_nth)
  from cl j have "edge_done bad (dfs s) p" by (auto simp: closed_def)
  with reach_step.hyps(4) have "visited (dfs s) (fst p)" by (simp add: edge_done_def)
  moreover from wf_graph_entry(1) [OF wf a(1) j(1)] j(2) have "fst p < n" by simp
  ultimately show ?case by simp
qed


text \<open>The tables \<open>read_graph\<close> leaves are a graph in this sense.\<close>

lemma tables_ok_wf_graph:
  assumes "tables_ok 1 t"
  shows "wf_graph (graph t) (badedge t) (nodes t)"
proof -
  note T = tables_okD [OF assms]
  from tables_ok_adj [OF assms]
  have "\<forall>x < nodes t. \<forall>p \<in> set (graph t ! x). fst p < nodes t \<and> snd p \<le> edges t"
    by (simp add: adj_ok_def)
  with T(1-5) show ?thesis by (fastforce simp: wf_graph_def)
qed

lemma read_graph_wf_graph:
  "read_graph text sp = Some t \<Longrightarrow> wf_graph (graph t) (badedge t) (nodes t)"
  by (rule tables_ok_wf_graph) (rule read_graph_tables_ok)

text \<open>
  Claim C7.  On a graph of \<open>n\<close> adjacency lists whose entries are in range, \<open>traverse\<close>
  returns with its frame stack empty.  At that point the vertices with a discovery number
  (\<open>dfs[v].first > 0\<close>) are exactly those that non-deleted edges connect to \<open>HEAD\<close>, their
  discovery numbers are pairwise different, \<open>count\<close> has been advanced once for each of them,
  and no other vertex is marked upstream.
\<close>

theorem traverse_visits_reachable:
  assumes wf: "wf_graph g bad n"
  shows "\<exists>t. traverse_graph g bad n = Some t \<and> stk t = [] \<and>
    (\<forall>v < n. 0 < fst (dfs t ! v) \<longleftrightarrow> reach g bad v) \<and>
    inj_on (\<lambda>v. fst (dfs t ! v)) {v. v < n \<and> reach g bad v} \<and>
    count t = Suc (card {v. v < n \<and> reach g bad v}) \<and>
    (\<forall>v < n. \<not> reach g bad v \<longrightarrow> \<not> upstream t ! v)"
proof -
  from traverse_loop_total [OF wf traverse_inv_init [OF wf]] obtain s where
    l: "traverse_loop g bad (traverse_init n) = Some s" and e: "stk s = []"
    and inv: "traverse_inv g bad n s" by blast
  from inv e have C: "common g bad n {} [] s" and v0: "visited (dfs s) 0"
    and cnt: "count s = Suc (card (vset n (dfs s)))"
    by (simp_all add: traverse_inv_def)
  note D = commonD [OF C]
  from D(2,3) have "\<forall>a \<in> set (acc s). a < length (upstream s)" by simp
  from mark_rest_Some [OF this] D(2) obtain up where
    m: "mark_rest (acc s) (upstream s) = Some up"
    and u: "\<forall>x < n. up ! x \<longleftrightarrow> upstream s ! x \<or> x \<in> set (acc s)" by auto
  let ?t = "s\<lparr>acc := [], upstream := up\<rparr>"
  from l m have r: "traverse_graph g bad n = Some ?t" by (simp add: traverse_graph_def)
  have vr: "visited (dfs s) v \<longleftrightarrow> reach g bad v" if "v < n" for v
    using D(4) [OF that] closed_reach [OF wf C v0, of v] by blast
  then have vs: "vset n (dfs s) = {v. v < n \<and> reach g bad v}" by (auto simp: vset_def)
  have 1: "\<forall>v < n. 0 < fst (dfs ?t ! v) \<longleftrightarrow> reach g bad v"
    using vr by (simp add: visited_def)
  from D(8) have 2: "inj_on (\<lambda>v. fst (dfs ?t ! v)) {v. v < n \<and> reach g bad v}"
    by (simp add: numbered_def vs)
  from cnt have 3: "count ?t = Suc (card {v. v < n \<and> reach g bad v})" by (simp add: vs)
  have 4: "\<forall>v < n. \<not> reach g bad v \<longrightarrow> \<not> upstream ?t ! v"
  proof (intro allI impI)
    fix v assume v: "v < n" and nr: "\<not> reach g bad v"
    from nr vr [OF v] have nv: "\<not> visited (dfs s) v" by simp
    with D(3) [of v] D(5) [OF v] have "\<not> (upstream s ! v \<or> v \<in> set (acc s))" by blast
    with u v show "\<not> upstream ?t ! v" by simp
  qed
  from r e 1 2 3 4 show ?thesis by (intro exI [of _ ?t] conjI) simp_all
qed

theorem traverse_visits_reachable_witness:
  "wf_graph (graph (the (read_graph json1 ''A''))) (badedge (the (read_graph json1 ''A'')))
     (nodes (the (read_graph json1 ''A''))) \<and>
   (\<exists>t. traverse (the (read_graph json1 ''A'')) = Some t \<and> stk t = [] \<and>
      count t = Suc (card {v. v < nodes (the (read_graph json1 ''A'')) \<and>
        reach (graph (the (read_graph json1 ''A''))) (badedge (the (read_graph json1 ''A''))) v})) \<and>
   map fst (dfs (the (traverse (the (read_graph json1 ''A''))))) = [1, 4, 2, 3]"
proof -
  have w: "wf_graph (graph (the (read_graph json1 ''A''))) (badedge (the (read_graph json1 ''A'')))
     (nodes (the (read_graph json1 ''A'')))"
    by (rule read_graph_wf_graph) (rule read_graph_json1)
  have d: "map fst (dfs (the (traverse (the (read_graph json1 ''A''))))) = [1, 4, 2, 3]"
    by code_simp
  from traverse_visits_reachable [OF w] w d show ?thesis
    unfolding traverse_def by blast
qed

section \<open>Simple paths from HEAD to TAIL\<close>

text \<open>
  What the header comment of \<open>upstream_features.cpp\<close> calls an upstream feature of the
  reduced graph: a vertex on a simple path from \<open>HEAD\<close> to \<open>TAIL\<close>.  \<open>adjacent\<close> is an
  adjacency entry over an edge that was not deleted.
\<close>

definition adjacent :: "(nat \<times> nat) list list \<Rightarrow> bool list \<Rightarrow> nat \<Rightarrow> nat \<Rightarrow> bool" where
  "adjacent g bad a b \<longleftrightarrow> a < length g \<and> (\<exists>p \<in> set (g ! a). fst p = b \<and> \<not> bad ! snd p)"

fun walk :: "(nat \<times> nat) list list \<Rightarrow> bool list \<Rightarrow> nat list \<Rightarrow> bool" where
  "walk g bad [] \<longleftrightarrow> False"
| "walk g bad [v] \<longleftrightarrow> v < length g"
| "walk g bad (v # w # p) \<longleftrightarrow> adjacent g bad v w \<and> walk g bad (w # p)"

definition on_simple_path :: "(nat \<times> nat) list list \<Rightarrow> bool list \<Rightarrow> nat \<Rightarrow> bool" where
  "on_simple_path g bad v \<longleftrightarrow>
     (\<exists>p. walk g bad p \<and> distinct p \<and> hd p = HEAD \<and> last p = TAIL \<and> v \<in> set p)"

lemma walk_suffix: "walk g bad (xs @ ys) \<Longrightarrow> ys \<noteq> [] \<Longrightarrow> walk g bad ys"
proof (induction xs)
  case Nil
  then show ?case by simp
next
  case (Cons x xs)
  show ?case
  proof (cases "xs @ ys")
    case Nil
    with Cons.prems show ?thesis by simp
  next
    case (Cons w r)
    with Cons.prems(1) have "walk g bad (xs @ ys)" by simp
    with Cons.IH Cons.prems(2) show ?thesis by simp
  qed
qed

text \<open>A vertex inside a simple path has two different neighbours on it.\<close>

lemma walk_interior:
  assumes w: "walk g bad p" and d: "distinct p" and v: "v \<in> set p"
    and h: "v \<noteq> hd p" and l: "v \<noteq> last p"
  shows "\<exists>a b. a \<noteq> b \<and> a \<in> set p \<and> b \<in> set p \<and> adjacent g bad a v \<and> adjacent g bad v b"
proof -
  from v obtain xs ys where p: "p = xs @ v # ys" by (auto dest: split_list)
  from h p have "xs \<noteq> []" by (cases xs) auto
  then obtain xs' a where xs: "xs = xs' @ [a]" by (cases xs rule: rev_cases) auto
  from l p have "ys \<noteq> []" by auto
  then obtain b ys' where ys: "ys = b # ys'" by (cases ys) auto
  from p xs ys have p': "p = xs' @ (a # v # b # ys')" by simp
  from w have "walk g bad (a # v # b # ys')" unfolding p' by (rule walk_suffix) simp
  then have "adjacent g bad a v" "adjacent g bad v b" by simp_all
  moreover from d have "a \<noteq> b" unfolding p' by auto
  ultimately show ?thesis unfolding p' by auto
qed

lemma read_graph_json_two:
  "read_graph json_two ''A'' = Some (the (read_graph json_two ''A''))"
proof -
  have "\<not> Option.is_none (read_graph json_two ''A'')" by code_simp
  then show ?thesis by (simp add: Option.is_none_def)
qed

lemma graph_json_two:
  "graph (the (read_graph json_two ''A'')) =
     [[(2, 2)], [(3, 2), (4, 2)], [(3, 0), (0, 2)], [(2, 0), (1, 2)], [(5, 1), (1, 2)], [(4, 1)]]"
  by code_simp

lemma badedge_json_two: "badedge (the (read_graph json_two ''A'')) = [False, False, False]"
  by code_simp

lemma adjacent_json_two:
  assumes "adjacent (graph (the (read_graph json_two ''A''))) (badedge (the (read_graph json_two ''A''))) a b"
  shows "(a, b) \<in> {(0, 2), (1, 3), (1, 4), (2, 3), (2, 0), (3, 2), (3, 1), (4, 5), (4, 1), (5, 4)}"
proof -
  from assms have a: "a < 6" by (simp add: adjacent_def graph_json_two)
  then consider "a = 0" | "a = 1" | "a = 2" | "a = 3" | "a = 4" | "a = 5" by linarith
  then show ?thesis
    using assms by cases (auto simp: adjacent_def graph_json_two)
qed

lemma no_simple_path_json_two:
  "\<not> on_simple_path (graph (the (read_graph json_two ''A'')))
      (badedge (the (read_graph json_two ''A''))) 4"
proof
  let ?g = "graph (the (read_graph json_two ''A''))" and ?b = "badedge (the (read_graph json_two ''A''))"
  assume "on_simple_path ?g ?b 4"
  then obtain p where p: "walk ?g ?b p" "distinct p" "hd p = 0" "last p = 1" "4 \<in> set p"
    by (auto simp: on_simple_path_def HEAD_def TAIL_def)
  from walk_interior [OF p(1,2,5)] p(3,4) obtain a b where
    ab: "a \<noteq> b" "a \<in> set p" "b \<in> set p" "adjacent ?g ?b a 4" "adjacent ?g ?b 4 b" by auto
  from adjacent_json_two [OF ab(4)] adjacent_json_two [OF ab(5)] ab(1)
  have "a = 5 \<or> b = 5" by auto
  with ab(2,3) have "5 \<in> set p" by auto
  from walk_interior [OF p(1,2) this] p(3,4) obtain a' b' where
    ab': "a' \<noteq> b'" "adjacent ?g ?b a' 5" "adjacent ?g ?b 5 b'" by auto
  from adjacent_json_two [OF ab'(2)] adjacent_json_two [OF ab'(3)] ab'(1)
  show False by simp
qed

text \<open>
  Claim C1.  With rows \<open>e1: A - C\<close> and \<open>e2: D - E\<close>, controllers \<open>C\<close> and \<open>D\<close> and
  starting point \<open>A\<close>, vertex 4 is \<open>D\<close>.  \<open>traverse\<close> walks from \<open>C\<close> into \<open>TAIL\<close> and
  on into \<open>D\<close>, whose edge back to \<open>TAIL\<close> sets \<open>reached\<close>: \<open>D\<close> is marked upstream and
  written to the output, and it is on no simple path from \<open>HEAD\<close> to \<open>TAIL\<close>.
\<close>

theorem traverse_marks_beyond_tail:
  "\<not> Option.is_none (traverse (the (read_graph json_two ''A''))) \<and>
   upstream (the (traverse (the (read_graph json_two ''A'')))) ! 4 \<and>
   name (the (read_graph json_two ''A'')) ! 4 = ''D'' @ [newline] \<and>
   \<not> on_simple_path (graph (the (read_graph json_two ''A'')))
      (badedge (the (read_graph json_two ''A''))) 4 \<and>
   upstream_features json_two ''A'' =
     Some (''A'' @ [newline] @ ''A'' @ [newline] @ ''e1'' @ [newline] @ ''C'' @ [newline] @
           ''C'' @ [newline] @ ''D'' @ [newline] @ ''D'' @ [newline])"
proof -
  have "\<not> Option.is_none (traverse (the (read_graph json_two ''A'')))" by code_simp
  moreover have "upstream (the (traverse (the (read_graph json_two ''A'')))) ! 4" by code_simp
  moreover have "name (the (read_graph json_two ''A'')) ! 4 = ''D'' @ [newline]" by code_simp
  moreover have "upstream_features json_two ''A'' =
     Some (''A'' @ [newline] @ ''A'' @ [newline] @ ''e1'' @ [newline] @ ''C'' @ [newline] @
           ''C'' @ [newline] @ ''D'' @ [newline] @ ''D'' @ [newline])" by code_simp
  ultimately show ?thesis using no_simple_path_json_two by (intro conjI)
qed

text \<open>
  Claim C2.  With the row \<open>E1: A - B\<close>, controller \<open>B\<close> and starting point \<open>A\<close>, vertex 2
  is \<open>A\<close>, marked upstream.  The emitter writes a vertex's name when it pushes the vertex
  (line 113) and again when it pops it (line 103): the output holds \<open>A\<close> twice, and \<open>B\<close>
  twice.
\<close>

theorem emit_writes_vertex_twice:
  "upstream_features json1 ''A'' =
     Some (''A'' @ [newline] @ ''A'' @ [newline] @ ''E1'' @ [newline] @ ''B'' @ [newline] @
           ''B'' @ [newline]) \<and>
   upstream (the (traverse (the (read_graph json1 ''A'')))) ! 2 \<and>
   name (the (read_graph json1 ''A'')) ! 2 = ''A'' @ [newline] \<and>
   count_list (the (emit (the (read_graph json1 ''A'')) (the (traverse (the (read_graph json1 ''A'')))))) 
     (name (the (read_graph json1 ''A'')) ! 2) = 2"
proof -
  have "upstream_features json1 ''A'' =
     Some (''A'' @ [newline] @ ''A'' @ [newline] @ ''E1'' @ [newline] @ ''B'' @ [newline] @
           ''B'' @ [newline])" by code_simp
  moreover have "upstream (the (traverse (the (read_graph json1 ''A'')))) ! 2" by code_simp
  moreover have "name (the (read_graph json1 ''A'')) ! 2 = ''A'' @ [newline]" by code_simp
  moreover have "count_list (the (emit (the (read_graph json1 ''A''))
      (the (traverse (the (read_graph json1 ''A''))))))
     (name (the (read_graph json1 ''A'')) ! 2) = 2" by code_simp
  ultimately show ?thesis by (intro conjI)
qed

section \<open>Stored identifiers in both builds\<close>






text \<open>
  In the order-independent build an identifier whose key is missing stays the empty
  string, so the tables can hold the empty key.
\<close>

definition weak_ident :: "string \<Rightarrow> bool" where
  "weak_ident x \<longleftrightarrow> x = [] \<or> last x = newline"

definition weak_names :: "gstate \<Rightarrow> bool" where
  "weak_names g \<longleftrightarrow>
     (\<forall>k v. idx g k = Some v \<longrightarrow> weak_ident k \<and> 2 \<le> v) \<and>
     (\<forall>k e. edgeidx g k = Some e \<longrightarrow> weak_ident k \<and> e < edges g) \<and>
     2 \<le> nodes g \<and> 2 \<le> length (name g) \<and> name g ! HEAD = [] \<and> name g ! TAIL = []"







lemma weak_names_controllers [simp]: "weak_names (g\<lparr>controllers := c\<rparr>) = weak_names g"
  by (simp add: weak_names_def)














end
